theory Spec2Isabelle
  imports Complex_Main
begin

section \<open>Text primitives used by the control panel\<close>

text \<open>
  Texts are \<^typ>\<open>string\<close>s whose characters stand for ASCII code points, on which
  UTF-8 encoding is the identity. The functions below are the library calls that
  \<^verbatim>\<open>motor_control_ui.py\<close> makes on such texts: \<^verbatim>\<open>str.strip\<close>,
  \<^verbatim>\<open>str.lower\<close>, \<^verbatim>\<open>str.startswith\<close>, \<^verbatim>\<open>str.split('\n')\<close>,
  \<^verbatim>\<open>int(text)\<close> and the decimal rendering of an integer inside an f-string.
\<close>

definition newline :: char where
  "newline = CHR 0x0A"

definition isspace :: "char \<Rightarrow> bool" where
  "isspace c = (let n = of_char c :: nat in (9 \<le> n \<and> n \<le> 13) \<or> (28 \<le> n \<and> n \<le> 32))"

definition strip :: "string \<Rightarrow> string" where
  "strip s = rev (dropWhile isspace (rev (dropWhile isspace s)))"

definition lower_char :: "char \<Rightarrow> char" where
  "lower_char c =
     (case map_of (zip ''ABCDEFGHIJKLMNOPQRSTUVWXYZ'' ''abcdefghijklmnopqrstuvwxyz'') c of
        Some l \<Rightarrow> l
      | None \<Rightarrow> c)"

definition lower :: "string \<Rightarrow> string" where
  "lower s = map lower_char s"

definition startswith :: "string \<Rightarrow> string \<Rightarrow> bool" where
  "startswith s p = (take (length p) s = p)"

text \<open>\<^verbatim>\<open>content.split('\n')\<close>: always at least one piece; the last case is unreachable.\<close>

fun split_nl :: "string \<Rightarrow> string list" where
  "split_nl [] = [[]]"
| "split_nl (c # cs) =
     (if c = newline then [] # split_nl cs
      else (case split_nl cs of l # ls \<Rightarrow> (c # l) # ls | [] \<Rightarrow> [[c]]))"

text \<open>Decimal rendering of an integer, as \<^verbatim>\<open>f"{n}"\<close> produces it.\<close>

fun digits :: "nat \<Rightarrow> string" where
  "digits n =
     (if n < 10 then [''0123456789'' ! n]
      else digits (n div 10) @ [''0123456789'' ! (n mod 10)])"

declare digits.simps [simp del]

definition str_int :: "int \<Rightarrow> string" where
  "str_int i = (if i < 0 then CHR ''-'' # digits (nat (- i)) else digits (nat i))"

text \<open>
  \<^verbatim>\<open>int(text)\<close> on ASCII text. The whitespace that the conversion skips at both ends
  is the C set (tab, line feed, vertical tab, form feed, carriage return, space), which
  is smaller than the set of \<^verbatim>\<open>str.strip\<close>: the separators \<open>0x1C\<close> to \<open>0x1F\<close> are not
  skipped. Then one sign is allowed, then decimal digits, where single underscores may
  separate digits. A text with more than 4300 digits is refused (the default limit of
  the interpreter). \<open>None\<close> stands for \<^verbatim>\<open>ValueError\<close>.
\<close>

definition is_digit :: "char \<Rightarrow> bool" where
  "is_digit c = (let n = of_char c :: nat in 48 \<le> n \<and> n \<le> 57)"

definition digit_val :: "char \<Rightarrow> nat" where
  "digit_val c = of_char c - 48"

definition int_space :: "char \<Rightarrow> bool" where
  "int_space c = (let n = of_char c :: nat in (9 \<le> n \<and> n \<le> 13) \<or> n = 32)"

definition int_max_str_digits :: nat where
  "int_max_str_digits = 4300"

fun parse_digits :: "bool \<Rightarrow> nat \<Rightarrow> string \<Rightarrow> nat option" where
  "parse_digits after_digit acc [] = (if after_digit then Some acc else None)"
| "parse_digits after_digit acc (c # cs) =
     (if is_digit c then parse_digits True (10 * acc + digit_val c) cs
      else if c = CHR ''_'' \<and> after_digit then parse_digits False acc cs
      else None)"

definition py_int :: "string \<Rightarrow> int option" where
  "py_int s =
     (case rev (dropWhile int_space (rev (dropWhile int_space s))) of
        [] \<Rightarrow> None
      | c # cs \<Rightarrow>
          (let body = (if c = CHR ''-'' \<or> c = CHR ''+'' then cs else c # cs) in
           if int_max_str_digits < length (filter is_digit body) then None
           else map_option (\<lambda>n. if c = CHR ''-'' then - int n else int n)
                  (parse_digits False 0 body)))"

section \<open>The serial connection\<close>

text \<open>
  The port object of the serial library, reduced to what the panel observes. Every call of
  \<^verbatim>\<open>write\<close> is logged in \<open>attempts\<close>; the payloads of the calls that returned normally
  are in \<open>wire\<close>. \<open>faults\<close> scripts the coming calls: \<open>Some e\<close> makes the next call raise
  an exception whose text is \<open>e\<close>, \<open>None\<close> lets it pass, and once the script is used up
  every call passes. A closed port raises on every write.
\<close>

record serial_port =
  is_open :: bool
  attempts :: "string list"
  wire :: "string list"
  faults :: "string option list"

definition port_not_open :: string where
  "port_not_open = ''Attempting to use a port that is not open''"

definition serial_write :: "string \<Rightarrow> serial_port \<Rightarrow> string option \<times> serial_port" where
  "serial_write payload p =
     (let p1 = p\<lparr>attempts := attempts p @ [payload]\<rparr> in
      if \<not> is_open p then (Some port_not_open, p1)
      else (case faults p of
              [] \<Rightarrow> (None, p1\<lparr>wire := wire p @ [payload]\<rparr>)
            | None # fs \<Rightarrow> (None, p1\<lparr>wire := wire p @ [payload], faults := fs\<rparr>)
            | Some e # fs \<Rightarrow> (Some e, p1\<lparr>faults := fs\<rparr>)))"

text \<open>\<^verbatim>\<open>f"{line}\n".encode('utf-8')\<close>: the payload of one line.\<close>

definition payload_of :: "string \<Rightarrow> string" where
  "payload_of line = line @ [newline]"

section \<open>The G-code runner thread\<close>

text \<open>
  \<^verbatim>\<open>GCodeRunnerThread\<close>. Its three Qt signals are collected, in emission order, in
  \<open>emitted\<close>. The text of a send failure is the UTF-8 form of
  \<^verbatim>\<open>f"Satir {i+1} gonderilemedi: {str(e)}"\<close> (with the dotless i and the o-umlaut of
  the source).
\<close>

datatype signal = Progress nat nat | Finished | Error string

definition send_failed_msg :: "nat \<Rightarrow> string \<Rightarrow> string" where
  "send_failed_msg n e =
     ''Sat'' @ [CHR 0xC4, CHR 0xB1] @ ''r '' @ digits n @
     '' g'' @ [CHR 0xC3, CHR 0xB6] @ ''nderilemedi: '' @ e"

text \<open>
  The control points of \<^verbatim>\<open>run\<close>, with the loop variables \<^verbatim>\<open>i\<close> and
  \<^verbatim>\<open>line\<close> where they are bound:
  \<^item> \<open>Head i\<close>: the \<^verbatim>\<open>for\<close> statement fetches element \<open>i\<close> and tests
    \<^verbatim>\<open>if not self.running\<close> (lines 61-63);
  \<^item> \<open>PauseWait i line\<close>: one evaluation of \<^verbatim>\<open>while self.paused and self.running\<close>,
    sleeping when it holds (lines 66-67);
  \<^item> \<open>Recheck i line\<close>: the second \<^verbatim>\<open>if not self.running\<close> (lines 69-70);
  \<^item> \<open>Body i line\<close>: strip, skip or write, progress or error (lines 72-86);
  \<^item> \<open>Finish\<close>: \<^verbatim>\<open>self.finished.emit()\<close> (line 88);
  \<^item> \<open>Exited\<close>: \<^verbatim>\<open>run\<close> has returned.
\<close>

datatype pc =
  Head nat
| PauseWait nat string
| Recheck nat string
| Body nat string
| Finish
| Exited

record runner =
  gcode_lines :: "string list"
  running :: bool
  paused :: bool
  pc :: pc
  emitted :: "signal list"

text \<open>The constructor followed by \<^verbatim>\<open>start()\<close>.\<close>

definition new_runner :: "string list \<Rightarrow> runner" where
  "new_runner ls =
     \<lparr>gcode_lines = ls, running = True, paused = False, pc = Head 0, emitted = []\<rparr>"

definition isRunning :: "runner \<Rightarrow> bool" where
  "isRunning r = (pc r \<noteq> Exited)"

definition skipped :: "string \<Rightarrow> bool" where
  "skipped line = (line = [] \<or> startswith line '';'' \<or> startswith line ''('')"

definition emit :: "signal \<Rightarrow> runner \<Rightarrow> runner" where
  "emit sg r = r\<lparr>emitted := emitted r @ [sg]\<rparr>"

text \<open>One atomic step of the thread against the port it was given.\<close>

definition runner_step :: "runner \<times> serial_port \<Rightarrow> runner \<times> serial_port" where
  "runner_step s =
     (let r = fst s; p = snd s; total_lines = length (gcode_lines r) in
      case pc r of
        Head i \<Rightarrow>
          (case drop i (gcode_lines r) of
             [] \<Rightarrow> (r\<lparr>pc := Finish\<rparr>, p)
           | line # _ \<Rightarrow>
               if \<not> running r then (r\<lparr>pc := Finish\<rparr>, p)
               else (r\<lparr>pc := PauseWait i line\<rparr>, p))
      | PauseWait i line \<Rightarrow>
          if paused r \<and> running r then (r, p)
          else (r\<lparr>pc := Recheck i line\<rparr>, p)
      | Recheck i line \<Rightarrow>
          if \<not> running r then (r\<lparr>pc := Finish\<rparr>, p)
          else (r\<lparr>pc := Body i line\<rparr>, p)
      | Body i line0 \<Rightarrow>
          (let line = strip line0 in
           if skipped line then
             (emit (Progress (i + 1) total_lines) (r\<lparr>pc := Head (i + 1)\<rparr>), p)
           else
             (case serial_write (payload_of line) p of
                (None, p') \<Rightarrow>
                  (emit (Progress (i + 1) total_lines) (r\<lparr>pc := Head (i + 1)\<rparr>), p')
              | (Some e, p') \<Rightarrow>
                  (emit (Error (send_failed_msg (i + 1) e)) (r\<lparr>pc := Finish\<rparr>), p')))
      | Finish \<Rightarrow> (emit Finished (r\<lparr>pc := Exited\<rparr>), p)
      | Exited \<Rightarrow> (r, p))"

text \<open>\<^verbatim>\<open>stop\<close>, \<^verbatim>\<open>pause\<close> and \<^verbatim>\<open>resume\<close>, called from the window's thread.\<close>

definition stop :: "runner \<Rightarrow> runner" where
  "stop r = r\<lparr>running := False\<rparr>"

definition pause :: "runner \<Rightarrow> runner" where
  "pause r = r\<lparr>paused := True\<rparr>"

definition resume :: "runner \<Rightarrow> runner" where
  "resume r = r\<lparr>paused := False\<rparr>"

text \<open>
  An execution is any interleaving of thread steps (\<open>Tick\<close>) with requests from the
  window's thread.
\<close>

datatype action = Tick | Stop | Pause | Resume

fun act :: "action \<Rightarrow> runner \<times> serial_port \<Rightarrow> runner \<times> serial_port" where
  "act Tick s = runner_step s"
| "act Stop s = (stop (fst s), snd s)"
| "act Pause s = (pause (fst s), snd s)"
| "act Resume s = (resume (fst s), snd s)"

fun exec :: "action list \<Rightarrow> runner \<times> serial_port \<Rightarrow> runner \<times> serial_port" where
  "exec [] s = s"
| "exec (a # as) s = exec as (act a s)"

text \<open>
  The thread left alone until \<^verbatim>\<open>run\<close> returns. It need not return: a paused thread
  that nobody resumes or stops sleeps forever, and then the value is \<open>None\<close>.
\<close>

partial_function (option) run :: "runner \<times> serial_port \<Rightarrow> (runner \<times> serial_port) option" where
  "run s = (if pc (fst s) = Exited then Some s else run (runner_step s))"

text \<open>
  The loop of \<^verbatim>\<open>run\<close> when nobody stops or pauses it, as a recursion over the lines
  still to be processed: the signals it emits and the port it leaves.
\<close>

fun send_all :: "nat \<Rightarrow> nat \<Rightarrow> string list \<Rightarrow> serial_port \<Rightarrow> signal list \<times> serial_port" where
  "send_all i total_lines [] p = ([], p)"
| "send_all i total_lines (line0 # rest) p =
     (let line = strip line0 in
      if skipped line then
        (let (sgs, p') = send_all (i + 1) total_lines rest p
         in (Progress (i + 1) total_lines # sgs, p'))
      else
        (case serial_write (payload_of line) p of
           (None, p1) \<Rightarrow>
             (let (sgs, p') = send_all (i + 1) total_lines rest p1
              in (Progress (i + 1) total_lines # sgs, p'))
         | (Some e, p1) \<Rightarrow> ([Error (send_failed_msg (i + 1) e)], p1)))"

section \<open>The control panel\<close>

text \<open>
  \<^verbatim>\<open>MotorControlUI\<close>, reduced to the state its command handlers read and write.
  Message boxes are recorded in \<open>dialogs\<close>, in the order they are shown; a \<open>message\<close>
  names the fixed text of the source:
  \<^item> \<open>Not_connected\<close>: lines 427 and 552; \<open>Send_failed e\<close>: line 435;
  \<^item> \<open>Invalid_speed\<close>: lines 460 and 496;
  \<^item> \<open>Angle_missing\<close>, \<open>Angle_out_of_range\<close>, \<open>Invalid_angle\<close>: lines 534, 540, 547;
  \<^item> \<open>File_loaded n\<close>: line 571;
  \<^item> \<open>Editor_empty\<close>, \<open>No_valid_gcode\<close>, \<open>Already_running\<close>: lines 584, 590, 595;
  \<^item> \<open>Gcode_stopped\<close>: line 630; \<open>Gcode_completed\<close>: line 648; \<open>Gcode_error m\<close>: line 653.
\<close>

datatype motor = X | Y | Z | E | R | T

definition motor_name :: "motor \<Rightarrow> string" where
  "motor_name m =
     (case m of X \<Rightarrow> ''X'' | Y \<Rightarrow> ''Y'' | Z \<Rightarrow> ''Z'' | E \<Rightarrow> ''E'' | R \<Rightarrow> ''R'' | T \<Rightarrow> ''T'')"

datatype message =
  Not_connected
| Send_failed string
| Invalid_speed
| Angle_missing
| Angle_out_of_range
| Invalid_angle
| File_loaded nat
| Editor_empty
| No_valid_gcode
| Already_running
| Gcode_stopped
| Gcode_completed
| Gcode_error string

datatype dialog = Warning message | Critical message | Information message

record motor_widget =
  speed :: string
  steps :: string

record ui =
  serial_connection :: "serial_port option"
  motor_widgets :: "motor \<Rightarrow> motor_widget"
  servo_angle_input :: string
  gcode_editor :: string
  ui_gcode_lines :: "string list"
  gcode_runner :: "runner option"
  gcode_progress :: int
  output_text :: "string list"
  dialogs :: "dialog list"

definition show_dialog :: "dialog \<Rightarrow> ui \<Rightarrow> ui" where
  "show_dialog d u = u\<lparr>dialogs := dialogs u @ [d]\<rparr>"

definition connected :: "ui \<Rightarrow> bool" where
  "connected u = (case serial_connection u of None \<Rightarrow> False | Some p \<Rightarrow> is_open p)"

definition check_connection :: "ui \<Rightarrow> bool \<times> ui" where
  "check_connection u =
     (if \<not> connected u then (False, show_dialog (Warning Not_connected) u) else (True, u))"

definition send_command :: "string \<Rightarrow> ui \<Rightarrow> bool \<times> ui" where
  "send_command command u =
     (case serial_connection u of
        None \<Rightarrow> (False, show_dialog (Warning Not_connected) u)
      | Some p \<Rightarrow>
          if \<not> is_open p then (False, show_dialog (Warning Not_connected) u)
          else (case serial_write (payload_of command) p of
                  (None, p') \<Rightarrow>
                    (True, u\<lparr>serial_connection := Some p',
                             output_text := output_text u @ [''>>> '' @ command]\<rparr>)
                | (Some e, p') \<Rightarrow>
                    (False, show_dialog (Critical (Send_failed e))
                              (u\<lparr>serial_connection := Some p'\<rparr>))))"

text \<open>
  The part that \<^verbatim>\<open>move_forward\<close> and \<^verbatim>\<open>move_backward\<close> share word for word: select
  the axis, then set the speed. \<open>Inl\<close> is the early \<^verbatim>\<open>return\<close> after the warning.
\<close>

definition select_and_speed :: "motor \<Rightarrow> ui \<Rightarrow> ui + ui" where
  "select_and_speed motor u =
     (let u1 = snd (send_command (lower (motor_name motor)) u);
          speed_text = speed (motor_widgets u1 motor)
      in if speed_text \<noteq> [] then
           (case py_int speed_text of
              Some speed_val \<Rightarrow> Inr (snd (send_command (''v='' @ str_int speed_val) u1))
            | None \<Rightarrow> Inl (show_dialog (Warning Invalid_speed) u1))
         else Inr u1)"

definition move_forward :: "motor \<Rightarrow> ui \<Rightarrow> ui" where
  "move_forward motor u =
     (case check_connection u of
        (False, u') \<Rightarrow> u'
      | (True, u0) \<Rightarrow>
          (case select_and_speed motor u0 of
             Inl u' \<Rightarrow> u'
           | Inr u2 \<Rightarrow>
               (let steps_text = steps (motor_widgets u2 motor) in
                if steps_text \<noteq> [] then
                  (case py_int steps_text of
                     Some step_val \<Rightarrow>
                       if step_val > 0 then snd (send_command (''m='' @ str_int step_val) u2)
                       else snd (send_command ''a'' u2)
                   | None \<Rightarrow> snd (send_command ''a'' u2))
                else snd (send_command ''a'' u2))))"

definition move_backward :: "motor \<Rightarrow> ui \<Rightarrow> ui" where
  "move_backward motor u =
     (case check_connection u of
        (False, u') \<Rightarrow> u'
      | (True, u0) \<Rightarrow>
          (case select_and_speed motor u0 of
             Inl u' \<Rightarrow> u'
           | Inr u2 \<Rightarrow>
               (let steps_text = steps (motor_widgets u2 motor) in
                if steps_text \<noteq> [] then
                  (case py_int steps_text of
                     Some step_val \<Rightarrow>
                       if step_val > 0 then snd (send_command (''n='' @ str_int step_val) u2)
                       else snd (send_command ''d'' u2)
                   | None \<Rightarrow> snd (send_command ''d'' u2))
                else snd (send_command ''d'' u2))))"

definition stop_motor :: "motor \<Rightarrow> ui \<Rightarrow> ui" where
  "stop_motor motor u =
     (case check_connection u of
        (False, u') \<Rightarrow> u'
      | (True, u0) \<Rightarrow>
          snd (send_command ''w'' (snd (send_command (lower (motor_name motor)) u0))))"

definition set_servo_angle :: "ui \<Rightarrow> ui" where
  "set_servo_angle u =
     (case check_connection u of
        (False, u') \<Rightarrow> u'
      | (True, u0) \<Rightarrow>
          (let angle_text = servo_angle_input u0 in
           if angle_text = [] then show_dialog (Warning Angle_missing) u0
           else (case py_int angle_text of
                   None \<Rightarrow> show_dialog (Warning Invalid_angle) u0
                 | Some angle \<Rightarrow>
                     if angle < 0 \<or> angle > 180 then
                       show_dialog (Warning Angle_out_of_range) u0
                     else snd (send_command (''p='' @ str_int angle)
                                 (snd (send_command ''s'' u0))))))"

text \<open>
  The expression of lines 570 and 587:
  \<^verbatim>\<open>[line.strip() for line in content.split('\n') if line.strip()]\<close>.
\<close>

definition program_lines :: "string \<Rightarrow> string list" where
  "program_lines content = map strip (filter (\<lambda>line. strip line \<noteq> []) (split_nl content))"

text \<open>\<^verbatim>\<open>load_gcode_file\<close>, for a file that was chosen and read as \<open>content\<close>.\<close>

definition load_gcode_file :: "string \<Rightarrow> ui \<Rightarrow> ui" where
  "load_gcode_file content u =
     (let u1 = u\<lparr>gcode_editor := content, ui_gcode_lines := program_lines content\<rparr>
      in show_dialog (Information (File_loaded (length (ui_gcode_lines u1)))) u1)"

definition run_gcode :: "ui \<Rightarrow> ui" where
  "run_gcode u =
     (case check_connection u of
        (False, u') \<Rightarrow> u'
      | (True, u0) \<Rightarrow>
          (let content = gcode_editor u0 in
           if strip content = [] then show_dialog (Warning Editor_empty) u0
           else
             (let u1 = u0\<lparr>ui_gcode_lines := program_lines content\<rparr> in
              if ui_gcode_lines u1 = [] then show_dialog (Warning No_valid_gcode) u1
              else if (case gcode_runner u1 of None \<Rightarrow> False | Some r \<Rightarrow> isRunning r) then
                show_dialog (Warning Already_running) u1
              else u1\<lparr>gcode_runner := Some (new_runner (ui_gcode_lines u1))\<rparr>)))"

text \<open>The slots connected to the runner's signals.\<close>

definition on_gcode_finished :: "ui \<Rightarrow> ui" where
  "on_gcode_finished u = show_dialog (Information Gcode_completed) (u\<lparr>gcode_progress := 100\<rparr>)"

definition on_gcode_error :: "string \<Rightarrow> ui \<Rightarrow> ui" where
  "on_gcode_error error_msg u =
     show_dialog (Critical (Gcode_error error_msg)) (on_gcode_finished u)"

text \<open>What the handlers did to the port, read off the window's state.\<close>

definition transmitted :: "ui \<Rightarrow> string list" where
  "transmitted u = (case serial_connection u of None \<Rightarrow> [] | Some p \<Rightarrow> wire p)"

definition write_calls :: "ui \<Rightarrow> string list" where
  "write_calls u = (case serial_connection u of None \<Rightarrow> [] | Some p \<Rightarrow> attempts p)"

text \<open>A window that is connected to a port on which no write fault is pending.\<close>

definition ready :: "ui \<Rightarrow> bool" where
  "ready u = (case serial_connection u of None \<Rightarrow> False | Some p \<Rightarrow> is_open p \<and> faults p = [])"

text \<open>
  The window as \<^verbatim>\<open>__init__\<close> and \<^verbatim>\<open>init_ui\<close> leave it (preset speeds 620, 300, 50
  and 1500, step count 0, angle 90), and the same window connected to a fresh port.
\<close>

definition initial_ui :: ui where
  "initial_ui =
     \<lparr>serial_connection = None,
      motor_widgets = (\<lambda>m. \<lparr>speed = (case m of X \<Rightarrow> ''620'' | Y \<Rightarrow> ''300'' | Z \<Rightarrow> ''50''
                                           | _ \<Rightarrow> ''1500''),
                            steps = ''0''\<rparr>),
      servo_angle_input = ''90'',
      gcode_editor = [],
      ui_gcode_lines = [],
      gcode_runner = None,
      gcode_progress = 0,
      output_text = [],
      dialogs = []\<rparr>"

definition fresh_port :: serial_port where
  "fresh_port = \<lparr>is_open = True, attempts = [], wire = [], faults = []\<rparr>"

definition connected_ui :: ui where
  "connected_ui = initial_ui\<lparr>serial_connection := Some fresh_port\<rparr>"

text \<open>The operator types into the speed and step fields of one motor, or into the editor.\<close>

definition type_speed :: "motor \<Rightarrow> string \<Rightarrow> ui \<Rightarrow> ui" where
  "type_speed m txt u = u\<lparr>motor_widgets := (motor_widgets u)(m := (motor_widgets u m)\<lparr>speed := txt\<rparr>)\<rparr>"

definition type_steps :: "motor \<Rightarrow> string \<Rightarrow> ui \<Rightarrow> ui" where
  "type_steps m txt u = u\<lparr>motor_widgets := (motor_widgets u)(m := (motor_widgets u m)\<lparr>steps := txt\<rparr>)\<rparr>"

section \<open>Auxiliary notions for the proofs\<close>

fun is_progress :: "signal \<Rightarrow> bool" where
  "is_progress (Progress c t) = True"
| "is_progress sg = False"

text \<open>An upper bound on the thread steps left once \<open>running\<close> is false.\<close>

fun steps_left :: "pc \<Rightarrow> nat" where
  "steps_left (Head i) = 2"
| "steps_left (PauseWait i l) = 3"
| "steps_left (Recheck i l) = 2"
| "steps_left (Body i l) = 3"
| "steps_left Finish = 1"
| "steps_left Exited = 0"

text \<open>
  The shape of the signal list at each control point: progress signals only while the
  loop runs; at most one error after them once the loop is left; \<open>Finished\<close> last, and
  only there, once \<^verbatim>\<open>run\<close> has returned.
\<close>

definition signals_ok :: "runner \<Rightarrow> bool" where
  "signals_ok r =
     (case pc r of
        Finish \<Rightarrow>
          (\<exists>pre. list_all is_progress pre \<and>
                 (emitted r = pre \<or> (\<exists>m. emitted r = pre @ [Error m])))
      | Exited \<Rightarrow>
          (\<exists>pre. list_all is_progress pre \<and>
                 (emitted r = pre @ [Finished] \<or> (\<exists>m. emitted r = pre @ [Error m, Finished])))
      | _ \<Rightarrow> list_all is_progress (emitted r))"

text \<open>The loop variables at a control point are an index into the program and its line.\<close>

definition in_program :: "runner \<Rightarrow> bool" where
  "in_program r =
     (case pc r of
        PauseWait i l \<Rightarrow> i < length (gcode_lines r) \<and> gcode_lines r ! i = l
      | Recheck i l \<Rightarrow> i < length (gcode_lines r) \<and> gcode_lines r ! i = l
      | Body i l \<Rightarrow> i < length (gcode_lines r) \<and> gcode_lines r ! i = l
      | _ \<Rightarrow> True)"

section \<open>The progress percentage\<close>

text \<open>
  \<^verbatim>\<open>int((current / total) * 100)\<close> is double-precision arithmetic: the quotient of the
  two integers is rounded to the nearest double (ties to even), so is its product with
  \<open>100\<close>, and \<^verbatim>\<open>int\<close> truncates. A non-negative double is kept as an exact fraction
  (numerator, power of two). \<open>round_double a b\<close> is the double nearest to \<open>a / b\<close>: the
  quotient is scaled by a power of two into \<open>[2^52, 2^53)\<close>, rounded to an integer
  mantissa, and scaled back. The exponent range of doubles is not modelled; it is not
  reached by quotients between \<open>1 / total\<close> and \<open>1\<close> and their products with \<open>100\<close>.
\<close>

fun bitlen :: "nat \<Rightarrow> nat" where
  "bitlen n = (if n = 0 then 0 else Suc (bitlen (n div 2)))"

declare bitlen.simps [simp del]

definition round_double :: "nat \<Rightarrow> nat \<Rightarrow> nat \<times> nat" where
  "round_double a b =
     (let k = (53 + bitlen b) - bitlen a;
          j = bitlen a - (53 + bitlen b);
          num = a * 2 ^ k;
          den0 = b * 2 ^ j;
          h = (if 2 ^ 53 * den0 \<le> num then 1 else 0 :: nat);
          den = den0 * 2 ^ h;
          q = num div den;
          r = num mod den;
          m = (if 2 * r < den \<or> (2 * r = den \<and> even q) then q else q + 1)
      in (m * 2 ^ (h + j), 2 ^ k))"

definition progress_percent :: "nat \<Rightarrow> nat \<Rightarrow> int" where
  "progress_percent current total_count =
     (let (qn, qd) = round_double current total_count;
          (pn, pd) = round_double (qn * 100) qd
      in int (pn div pd))"

text \<open>The slot connected to the runner's progress signal.\<close>

definition on_gcode_progress :: "nat \<Rightarrow> nat \<Rightarrow> ui \<Rightarrow> ui" where
  "on_gcode_progress current total_count u =
     (if total_count > 0 then u\<lparr>gcode_progress := progress_percent current total_count\<rparr>
      else u)"

text \<open>The real number that a fraction stands for.\<close>

definition frac_value :: "nat \<times> nat \<Rightarrow> real" where
  "frac_value f = real (fst f) / real (snd f)"

section \<open>Facts about the text primitives\<close>

lemma py_int_empty: "py_int [] = None"
  by (simp add: py_int_def)

lemma lower_motor_name:
  "lower (motor_name A) =
     (case A of X \<Rightarrow> ''x'' | Y \<Rightarrow> ''y'' | Z \<Rightarrow> ''z'' | E \<Rightarrow> ''e'' | R \<Rightarrow> ''r'' | T \<Rightarrow> ''t'')"
  by (cases A) (simp_all add: lower_def lower_char_def motor_name_def)

lemma payload_nl: "payload_of l = l @ [CHR 0x0A]"
  by (simp add: payload_of_def newline_def)

lemmas text_eval =
  py_int_def strip_def isspace_def int_space_def int_max_str_digits_def is_digit_def
  digit_val_def str_int_def digits.simps lower_def lower_char_def motor_name_def Let_def

text \<open>A text of 4301 digits is over the limit of the conversion.\<close>

lemma py_int_too_long: "py_int (replicate 4301 CHR ''1'') = None"
proof -
  have sp: "\<not> int_space CHR ''1''" and dg: "is_digit CHR ''1''"
    and sg: "\<not> (CHR ''1'' = CHR ''-'' \<or> CHR ''1'' = CHR ''+'')"
    by (simp_all add: int_space_def is_digit_def)
  have r: "replicate 4301 CHR ''1'' = CHR ''1'' # replicate 4300 CHR ''1''"
    using replicate_Suc[of 4300 "CHR ''1''"] by simp
  have "rev (dropWhile int_space (rev (dropWhile int_space (replicate 4301 CHR ''1'')))) =
          replicate 4301 CHR ''1''"
    using sp by (simp only: dropWhile_replicate rev_replicate if_False)
  then have st:
    "rev (dropWhile int_space (rev (dropWhile int_space (replicate 4301 CHR ''1'')))) =
          CHR ''1'' # replicate 4300 CHR ''1''"
    by (simp only: r)
  have len: "length (filter is_digit (CHR ''1'' # replicate 4300 CHR ''1'')) = 4301"
    using dg by (simp only: filter.simps filter_replicate if_True length_Cons length_replicate)
  show ?thesis
    unfolding py_int_def st
    by (simp only: list.case Let_def sg if_False len int_max_str_digits_def) simp
qed

text \<open>
  The rendering of an integer is its decimal numeral: an optional minus sign, then the
  digits of the absolute value, most significant first, with no leading zero.
\<close>

lemma digits_not_Nil: "digits n \<noteq> []"
  by (subst digits.simps) simp

lemma digits_decimal:
  "\<exists>ks. digits n = map ((!) ''0123456789'') ks
        \<and> list_all (\<lambda>k. k < 10) ks
        \<and> foldl (\<lambda>a k. 10 * a + k) 0 ks = n
        \<and> (hd ks = 0) = (n = 0)
        \<and> (length ks = 1) = (n < 10)"
proof (induction n rule: digits.induct)
  case (1 n)
  show ?case
  proof (cases "n < 10")
    case True
    then have d: "digits n = map ((!) ''0123456789'') [n]" by (subst digits.simps) simp
    show ?thesis
      using True by (intro exI[of _ "[n]"]) (simp add: d)
  next
    case False
    then have d: "digits n = digits (n div 10) @ [''0123456789'' ! (n mod 10)]"
      by (subst digits.simps) simp
    from 1[OF False] obtain ks where
      ks: "digits (n div 10) = map ((!) ''0123456789'') ks" "list_all (\<lambda>k. k < 10) ks"
        "foldl (\<lambda>a k. 10 * a + k) 0 ks = n div 10" "(hd ks = 0) = (n div 10 = 0)"
      by (elim exE conjE) (rule that)
    have ne: "ks \<noteq> []" using ks(1) digits_not_Nil[of "n div 10"] by auto
    have nz: "n div 10 \<noteq> 0" using False by (simp add: div_eq_0_iff)
    have a: "digits n = map ((!) ''0123456789'') (ks @ [n mod 10])"
      by (simp add: d ks(1))
    have b: "list_all (\<lambda>k. k < 10) (ks @ [n mod 10])" using ks(2) by simp
    have c: "foldl (\<lambda>a k. 10 * a + k) 0 (ks @ [n mod 10]) = n" by (simp add: ks(3))
    have e: "(hd (ks @ [n mod 10]) = 0) = (n = 0)"
      using ne ks(4) nz False by simp
    have f: "(length (ks @ [n mod 10]) = 1) = (n < 10)"
      using ne False by (cases ks) simp_all
    show ?thesis
      using a b c e f by - (rule exI[of _ "ks @ [n mod 10]"], intro conjI, assumption+)
  qed
qed

lemma str_int_decimal:
  "\<exists>ks. str_int i = (if i < 0 then ''-'' else []) @ map ((!) ''0123456789'') ks
        \<and> list_all (\<lambda>k. k < 10) ks
        \<and> foldl (\<lambda>a k. 10 * a + k) 0 ks = nat \<bar>i\<bar>
        \<and> (hd ks = 0) = (i = 0)
        \<and> (length ks = 1) = (\<bar>i\<bar> < 10)"
proof (cases "i < 0")
  case True
  from digits_decimal[of "nat (- i)"] obtain ks where
    "digits (nat (- i)) = map ((!) ''0123456789'') ks" "list_all (\<lambda>k. k < 10) ks"
    "foldl (\<lambda>a k. 10 * a + k) 0 ks = nat (- i)" "(hd ks = 0) = (nat (- i) = 0)"
    "(length ks = 1) = (nat (- i) < 10)"
    by (elim exE conjE) (rule that)
  then show ?thesis
    using True by (intro exI[of _ ks]) (auto simp: str_int_def)
next
  case False
  from digits_decimal[of "nat i"] obtain ks where
    "digits (nat i) = map ((!) ''0123456789'') ks" "list_all (\<lambda>k. k < 10) ks"
    "foldl (\<lambda>a k. 10 * a + k) 0 ks = nat i" "(hd ks = 0) = (nat i = 0)"
    "(length ks = 1) = (nat i < 10)"
    by (elim exE conjE) (rule that)
  then show ?thesis
    using False by (intro exI[of _ ks]) (auto simp: str_int_def)
qed

section \<open>Single commands on a ready window\<close>

lemma send_command_ready:
  assumes "serial_connection u = Some p" and "is_open p" and "faults p = []"
  shows "send_command c u =
           (True, u\<lparr>serial_connection :=
                       Some (p\<lparr>attempts := attempts p @ [payload_of c],
                               wire := wire p @ [payload_of c]\<rparr>),
                    output_text := output_text u @ [''>>> '' @ c]\<rparr>)"
  using assms by (simp add: send_command_def serial_write_def)

lemma check_connection_ready: "ready u \<Longrightarrow> check_connection u = (True, u)"
  by (simp add: check_connection_def connected_def ready_def split: option.splits)

text \<open>Sending on a ready window: one more write, one more line on the wire, still ready.\<close>

lemma send_ready:
  assumes "ready u"
  shows "ready (snd (send_command c u))"
    and "transmitted (snd (send_command c u)) = transmitted u @ [payload_of c]"
    and "write_calls (snd (send_command c u)) = write_calls u @ [payload_of c]"
    and "dialogs (snd (send_command c u)) = dialogs u"
    and "motor_widgets (snd (send_command c u)) = motor_widgets u"
    and "servo_angle_input (snd (send_command c u)) = servo_angle_input u"
  using assms
  by (auto simp: ready_def transmitted_def write_calls_def send_command_ready
           split: option.splits)

lemma show_dialog_keeps:
  "transmitted (show_dialog d u) = transmitted u"
  "write_calls (show_dialog d u) = write_calls u"
  "dialogs (show_dialog d u) = dialogs u @ [d]"
  by (simp_all add: show_dialog_def transmitted_def write_calls_def)

lemma select_and_speed_parsed:
  assumes "ready u" and "py_int (speed (motor_widgets u A)) = Some v"
  shows "\<exists>u2. select_and_speed A u = Inr u2 \<and> ready u2
            \<and> motor_widgets u2 = motor_widgets u \<and> dialogs u2 = dialogs u
            \<and> transmitted u2 =
                transmitted u @ [payload_of (lower (motor_name A)), payload_of (''v='' @ str_int v)]
            \<and> write_calls u2 =
                write_calls u @ [payload_of (lower (motor_name A)), payload_of (''v='' @ str_int v)]"
proof -
  have "speed (motor_widgets u A) \<noteq> []"
    using assms(2) py_int_empty by auto
  then have "select_and_speed A u =
      Inr (snd (send_command (''v='' @ str_int v) (snd (send_command (lower (motor_name A)) u))))"
    using assms by (simp add: select_and_speed_def Let_def send_ready)
  then show ?thesis
    using assms(1) by (simp add: send_ready del: append.simps)
qed

lemma select_and_speed_blank:
  assumes "ready u" and "speed (motor_widgets u A) = []"
  shows "\<exists>u2. select_and_speed A u = Inr u2 \<and> ready u2
            \<and> motor_widgets u2 = motor_widgets u \<and> dialogs u2 = dialogs u
            \<and> transmitted u2 = transmitted u @ [payload_of (lower (motor_name A))]
            \<and> write_calls u2 = write_calls u @ [payload_of (lower (motor_name A))]"
  using assms by (simp add: select_and_speed_def Let_def send_ready)

lemma select_and_speed_invalid:
  assumes "ready u" and "speed (motor_widgets u A) \<noteq> []"
    and "py_int (speed (motor_widgets u A)) = None"
  shows "\<exists>u1. select_and_speed A u = Inl u1
            \<and> dialogs u1 = dialogs u @ [Warning Invalid_speed]
            \<and> transmitted u1 = transmitted u @ [payload_of (lower (motor_name A))]
            \<and> write_calls u1 = write_calls u @ [payload_of (lower (motor_name A))]"
  using assms by (simp add: select_and_speed_def Let_def send_ready show_dialog_keeps)

lemma move_rejected:
  assumes "ready u" and "select_and_speed A u = Inl u1"
  shows "move_forward A u = u1" and "move_backward A u = u1"
  using assms by (simp_all add: move_forward_def move_backward_def check_connection_ready)

lemma move_forward_after:
  assumes "ready u" and "select_and_speed A u = Inr u2" and "ready u2"
    and "motor_widgets u2 = motor_widgets u"
  shows "transmitted (move_forward A u) =
           transmitted u2 @ [payload_of (case py_int (steps (motor_widgets u A)) of
                 Some n \<Rightarrow> if n > 0 then ''m='' @ str_int n else ''a''
               | None \<Rightarrow> ''a'')]"
    and "write_calls (move_forward A u) =
           write_calls u2 @ [payload_of (case py_int (steps (motor_widgets u A)) of
                 Some n \<Rightarrow> if n > 0 then ''m='' @ str_int n else ''a''
               | None \<Rightarrow> ''a'')]"
    and "dialogs (move_forward A u) = dialogs u2"
  using assms
  by (auto simp: move_forward_def check_connection_ready Let_def send_ready py_int_empty
           simp del: append.simps split: option.splits)

lemma move_backward_after:
  assumes "ready u" and "select_and_speed A u = Inr u2" and "ready u2"
    and "motor_widgets u2 = motor_widgets u"
  shows "transmitted (move_backward A u) =
           transmitted u2 @ [payload_of (case py_int (steps (motor_widgets u A)) of
                 Some n \<Rightarrow> if n > 0 then ''n='' @ str_int n else ''d''
               | None \<Rightarrow> ''d'')]"
    and "write_calls (move_backward A u) =
           write_calls u2 @ [payload_of (case py_int (steps (motor_widgets u A)) of
                 Some n \<Rightarrow> if n > 0 then ''n='' @ str_int n else ''d''
               | None \<Rightarrow> ''d'')]"
    and "dialogs (move_backward A u) = dialogs u2"
  using assms
  by (auto simp: move_backward_def check_connection_ready Let_def send_ready py_int_empty
           simp del: append.simps split: option.splits)

lemma ready_connected_ui: "ready connected_ui"
  by (simp add: ready_def connected_ui_def fresh_port_def)

lemma ready_typed: "ready (type_speed m s u) = ready u" "ready (type_steps m s u) = ready u"
  by (simp_all add: ready_def type_speed_def type_steps_def)

lemmas ui_eval =
  connected_ui_def initial_ui_def fresh_port_def type_speed_def type_steps_def
  transmitted_def write_calls_def


section \<open>Forward and backward with a valid speed\<close>

text \<open>
  Claim C1. On a connected window whose writes succeed, for every axis, every speed text
  that parses as an integer \<open>v\<close> and every steps text: forward makes exactly three write
  calls, one per line, each line followed by a line feed: the lower-case axis letter,
  \<open>v=\<close> and the decimal numeral of \<open>v\<close>, and then \<open>m=\<close> and the decimal numeral of \<open>n\<close> when
  the steps text parses as an integer \<open>n > 0\<close>, and \<open>a\<close> otherwise; backward does the same
  with \<open>n=\<close> and \<open>d\<close>. All three lines reach the wire and no dialog is shown.
\<close>

theorem move_commands_emit:
  assumes "ready u" and "py_int (speed (motor_widgets u A)) = Some v"
  shows "write_calls (move_forward A u) =
           write_calls u @
             [lower (motor_name A) @ [CHR 0x0A],
              ''v='' @ str_int v @ [CHR 0x0A],
              (case py_int (steps (motor_widgets u A)) of
                 Some n \<Rightarrow> if n > 0 then ''m='' @ str_int n else ''a''
               | None \<Rightarrow> ''a'') @ [CHR 0x0A]]
       \<and> transmitted (move_forward A u) =
           transmitted u @
             [lower (motor_name A) @ [CHR 0x0A],
              ''v='' @ str_int v @ [CHR 0x0A],
              (case py_int (steps (motor_widgets u A)) of
                 Some n \<Rightarrow> if n > 0 then ''m='' @ str_int n else ''a''
               | None \<Rightarrow> ''a'') @ [CHR 0x0A]]
       \<and> write_calls (move_backward A u) =
           write_calls u @
             [lower (motor_name A) @ [CHR 0x0A],
              ''v='' @ str_int v @ [CHR 0x0A],
              (case py_int (steps (motor_widgets u A)) of
                 Some n \<Rightarrow> if n > 0 then ''n='' @ str_int n else ''d''
               | None \<Rightarrow> ''d'') @ [CHR 0x0A]]
       \<and> transmitted (move_backward A u) =
           transmitted u @
             [lower (motor_name A) @ [CHR 0x0A],
              ''v='' @ str_int v @ [CHR 0x0A],
              (case py_int (steps (motor_widgets u A)) of
                 Some n \<Rightarrow> if n > 0 then ''n='' @ str_int n else ''d''
               | None \<Rightarrow> ''d'') @ [CHR 0x0A]]
       \<and> dialogs (move_forward A u) = dialogs u
       \<and> dialogs (move_backward A u) = dialogs u
       \<and> lower (motor_name A) =
           (case A of X \<Rightarrow> ''x'' | Y \<Rightarrow> ''y'' | Z \<Rightarrow> ''z'' | E \<Rightarrow> ''e'' | R \<Rightarrow> ''r'' | T \<Rightarrow> ''t'')
       \<and> (\<forall>i. \<exists>ks. str_int i = (if i < 0 then ''-'' else []) @ map ((!) ''0123456789'') ks
              \<and> list_all (\<lambda>k. k < 10) ks
              \<and> foldl (\<lambda>a k. 10 * a + k) 0 ks = nat \<bar>i\<bar>
              \<and> (hd ks = 0) = (i = 0)
              \<and> (length ks = 1) = (\<bar>i\<bar> < 10))"
proof -
  from select_and_speed_parsed[OF assms] obtain u2 where
    u2: "select_and_speed A u = Inr u2" "ready u2" "motor_widgets u2 = motor_widgets u"
    and d2: "dialogs u2 = dialogs u"
    and t2: "transmitted u2 =
      transmitted u @ [payload_of (lower (motor_name A)), payload_of (''v='' @ str_int v)]"
    and w2: "write_calls u2 =
      write_calls u @ [payload_of (lower (motor_name A)), payload_of (''v='' @ str_int v)]"
    by blast
  note f = move_forward_after[OF assms(1) u2]
  note b = move_backward_after[OF assms(1) u2]
  have main: "write_calls (move_forward A u) =
           write_calls u @
             [lower (motor_name A) @ [CHR 0x0A],
              ''v='' @ str_int v @ [CHR 0x0A],
              (case py_int (steps (motor_widgets u A)) of
                 Some n \<Rightarrow> if n > 0 then ''m='' @ str_int n else ''a''
               | None \<Rightarrow> ''a'') @ [CHR 0x0A]]
       \<and> transmitted (move_forward A u) =
           transmitted u @
             [lower (motor_name A) @ [CHR 0x0A],
              ''v='' @ str_int v @ [CHR 0x0A],
              (case py_int (steps (motor_widgets u A)) of
                 Some n \<Rightarrow> if n > 0 then ''m='' @ str_int n else ''a''
               | None \<Rightarrow> ''a'') @ [CHR 0x0A]]
       \<and> write_calls (move_backward A u) =
           write_calls u @
             [lower (motor_name A) @ [CHR 0x0A],
              ''v='' @ str_int v @ [CHR 0x0A],
              (case py_int (steps (motor_widgets u A)) of
                 Some n \<Rightarrow> if n > 0 then ''n='' @ str_int n else ''d''
               | None \<Rightarrow> ''d'') @ [CHR 0x0A]]
       \<and> transmitted (move_backward A u) =
           transmitted u @
             [lower (motor_name A) @ [CHR 0x0A],
              ''v='' @ str_int v @ [CHR 0x0A],
              (case py_int (steps (motor_widgets u A)) of
                 Some n \<Rightarrow> if n > 0 then ''n='' @ str_int n else ''d''
               | None \<Rightarrow> ''d'') @ [CHR 0x0A]]
       \<and> dialogs (move_forward A u) = dialogs u
       \<and> dialogs (move_backward A u) = dialogs u"
    using f b d2 t2 w2 by (simp add: payload_nl)
  from main lower_motor_name[of A] str_int_decimal show ?thesis by blast
qed

theorem move_commands_emit_witness:
  "ready (type_steps Y ''100'' connected_ui)
   \<and> py_int (speed (motor_widgets (type_steps Y ''100'' connected_ui) Y)) = Some 300
   \<and> transmitted (move_forward Y (type_steps Y ''100'' connected_ui)) =
       [''y'' @ [CHR 0x0A], ''v=300'' @ [CHR 0x0A], ''m=100'' @ [CHR 0x0A]]
   \<and> write_calls (move_backward Y (type_steps Y ''100'' connected_ui)) =
       [''y'' @ [CHR 0x0A], ''v=300'' @ [CHR 0x0A], ''n=100'' @ [CHR 0x0A]]
   \<and> ready connected_ui
   \<and> py_int (speed (motor_widgets connected_ui X)) = Some 620
   \<and> transmitted (move_forward X connected_ui) =
       [''x'' @ [CHR 0x0A], ''v=620'' @ [CHR 0x0A], ''a'' @ [CHR 0x0A]]
   \<and> transmitted (move_backward X connected_ui) =
       [''x'' @ [CHR 0x0A], ''v=620'' @ [CHR 0x0A], ''d'' @ [CHR 0x0A]]
   \<and> ready (type_steps T [CHR 0x1C, CHR ''5''] (type_speed T '' -7 '' connected_ui))
   \<and> py_int (speed (motor_widgets
         (type_steps T [CHR 0x1C, CHR ''5''] (type_speed T '' -7 '' connected_ui)) T)) = Some (- 7)
   \<and> transmitted (move_forward T
         (type_steps T [CHR 0x1C, CHR ''5''] (type_speed T '' -7 '' connected_ui))) =
       [''t'' @ [CHR 0x0A], ''v=-7'' @ [CHR 0x0A], ''a'' @ [CHR 0x0A]]"
proof -
  let ?u1 = "type_steps Y ''100'' connected_ui"
  let ?u3 = "type_steps T [CHR 0x1C, CHR ''5''] (type_speed T '' -7 '' connected_ui)"
  have s1: "py_int (speed (motor_widgets ?u1 Y)) = Some 300"
    and s2: "py_int (speed (motor_widgets connected_ui X)) = Some 620"
    and s3: "py_int (speed (motor_widgets ?u3 T)) = Some (- 7)"
    by (simp_all add: ui_eval text_eval)
  have p1: "py_int (steps (motor_widgets ?u1 Y)) = Some 100"
    and p2: "py_int (steps (motor_widgets connected_ui X)) = Some 0"
    and p3: "py_int (steps (motor_widgets ?u3 T)) = None"
    by (simp_all add: ui_eval text_eval)
  have r1: "ready ?u1" and r3: "ready ?u3"
    by (simp_all add: ready_typed ready_connected_ui)
  have t: "transmitted ?u1 = []" "write_calls ?u1 = []" "transmitted connected_ui = []"
    "transmitted ?u3 = []"
    by (simp_all add: ui_eval)
  have d: "str_int 300 = ''300''" "str_int 100 = ''100''" "str_int 620 = ''620''"
    "str_int (- 7) = ''-7''"
    by (simp_all add: str_int_def digits.simps)
  have l: "lower (motor_name Y) = ''y''" "lower (motor_name X) = ''x''"
    "lower (motor_name T) = ''t''"
    by (simp_all add: lower_motor_name)
  note a1 = move_commands_emit[OF r1 s1, unfolded p1 t d l]
  note a2 = move_commands_emit[OF ready_connected_ui s2, unfolded p2 t d l]
  note a3 = move_commands_emit[OF r3 s3, unfolded p3 t d l]
  from a1 a2 a3 r1 r3 ready_connected_ui s1 s2 s3 show ?thesis by (simp add: d)
qed

section \<open>Forward and backward with an invalid or a blank speed\<close>

text \<open>
  Claim C2, as stated, is refuted: with the speed text \<open>abc\<close> (non-empty, not an integer)
  forward on X does transmit a line, the axis-select line \<open>x\<close>, before the warning.
\<close>

theorem invalid_speed_counterexample:
  "speed (motor_widgets (type_speed X ''abc'' connected_ui) X) \<noteq> []
   \<and> py_int (speed (motor_widgets (type_speed X ''abc'' connected_ui) X)) = None
   \<and> transmitted (type_speed X ''abc'' connected_ui) = []
   \<and> transmitted (move_forward X (type_speed X ''abc'' connected_ui)) = [''x'' @ [CHR 0x0A]]
   \<and> transmitted (move_backward X (type_speed X ''abc'' connected_ui)) = [''x'' @ [CHR 0x0A]]"
proof -
  let ?u = "type_speed X ''abc'' connected_ui"
  have r: "ready ?u" by (simp add: ready_typed ready_connected_ui)
  have s: "speed (motor_widgets ?u X) \<noteq> []" and n: "py_int (speed (motor_widgets ?u X)) = None"
    by (simp_all add: ui_eval text_eval)
  from select_and_speed_invalid[OF r s n] obtain u1 where
    u1: "select_and_speed X ?u = Inl u1"
      "transmitted u1 = transmitted ?u @ [payload_of (lower (motor_name X))]"
    by blast
  have l: "lower (motor_name X) = ''x''" by (simp add: lower_motor_name)
  have t: "transmitted ?u = []" by (simp add: ui_eval)
  show ?thesis
    using move_rejected[OF r u1(1)] u1(2) s n l t by (simp add: payload_nl)
qed

text \<open>
  Claim C2, amended. On a connected window whose writes succeed, for every axis and every
  non-empty speed text that does not parse as an integer, forward and backward make exactly
  one write call, the axis-select line followed by a line feed, which reaches the wire;
  then the invalid-speed warning is shown and neither a \<open>v=\<close> line nor a motion line is
  sent.
\<close>

theorem invalid_speed_sends_axis_only:
  assumes "ready u" and "speed (motor_widgets u A) \<noteq> []"
    and "py_int (speed (motor_widgets u A)) = None"
  shows "write_calls (move_forward A u) = write_calls u @ [lower (motor_name A) @ [CHR 0x0A]]
       \<and> transmitted (move_forward A u) = transmitted u @ [lower (motor_name A) @ [CHR 0x0A]]
       \<and> dialogs (move_forward A u) = dialogs u @ [Warning Invalid_speed]
       \<and> write_calls (move_backward A u) = write_calls u @ [lower (motor_name A) @ [CHR 0x0A]]
       \<and> transmitted (move_backward A u) = transmitted u @ [lower (motor_name A) @ [CHR 0x0A]]
       \<and> dialogs (move_backward A u) = dialogs u @ [Warning Invalid_speed]
       \<and> lower (motor_name A) =
           (case A of X \<Rightarrow> ''x'' | Y \<Rightarrow> ''y'' | Z \<Rightarrow> ''z'' | E \<Rightarrow> ''e'' | R \<Rightarrow> ''r'' | T \<Rightarrow> ''t'')"
proof -
  from select_and_speed_invalid[OF assms] obtain u1 where
    u1: "select_and_speed A u = Inl u1"
    and rest: "dialogs u1 = dialogs u @ [Warning Invalid_speed]"
      "transmitted u1 = transmitted u @ [payload_of (lower (motor_name A))]"
      "write_calls u1 = write_calls u @ [payload_of (lower (motor_name A))]"
    by blast
  show ?thesis
    using move_rejected[OF assms(1) u1] rest lower_motor_name[of A] by (simp add: payload_nl)
qed

theorem invalid_speed_sends_axis_only_witness:
  "ready (type_speed Z ''fast'' connected_ui)
   \<and> speed (motor_widgets (type_speed Z ''fast'' connected_ui) Z) \<noteq> []
   \<and> py_int (speed (motor_widgets (type_speed Z ''fast'' connected_ui) Z)) = None
   \<and> transmitted (move_forward Z (type_speed Z ''fast'' connected_ui)) = [''z'' @ [CHR 0x0A]]
   \<and> dialogs (move_backward Z (type_speed Z ''fast'' connected_ui)) = [Warning Invalid_speed]
   \<and> ready (type_speed R [CHR 0x1C, CHR ''5''] connected_ui)
   \<and> speed (motor_widgets (type_speed R [CHR 0x1C, CHR ''5''] connected_ui) R) \<noteq> []
   \<and> py_int (speed (motor_widgets (type_speed R [CHR 0x1C, CHR ''5''] connected_ui) R)) = None
   \<and> transmitted (move_forward R (type_speed R [CHR 0x1C, CHR ''5''] connected_ui)) =
       [''r'' @ [CHR 0x0A]]
   \<and> dialogs (move_forward R (type_speed R [CHR 0x1C, CHR ''5''] connected_ui)) =
       [Warning Invalid_speed]
   \<and> ready (type_speed E (replicate 4301 CHR ''1'') connected_ui)
   \<and> speed (motor_widgets (type_speed E (replicate 4301 CHR ''1'') connected_ui) E) \<noteq> []
   \<and> py_int (speed (motor_widgets (type_speed E (replicate 4301 CHR ''1'') connected_ui) E)) = None
   \<and> write_calls (move_backward E (type_speed E (replicate 4301 CHR ''1'') connected_ui)) =
       [''e'' @ [CHR 0x0A]]"
proof -
  let ?u = "type_speed Z ''fast'' connected_ui"
  let ?v = "type_speed R [CHR 0x1C, CHR ''5''] connected_ui"
  let ?w = "type_speed E (replicate 4301 CHR ''1'') connected_ui"
  have r: "ready ?u" "ready ?v" "ready ?w" by (simp_all add: ready_typed ready_connected_ui)
  have s: "speed (motor_widgets ?u Z) \<noteq> []" and n: "py_int (speed (motor_widgets ?u Z)) = None"
    and s': "speed (motor_widgets ?v R) \<noteq> []" and n': "py_int (speed (motor_widgets ?v R)) = None"
    by (simp_all add: ui_eval text_eval)
  have sw: "speed (motor_widgets ?w E) = replicate 4301 CHR ''1''"
    by (simp add: type_speed_def)
  have s'': "speed (motor_widgets ?w E) \<noteq> []" unfolding sw by simp
  have n'': "py_int (speed (motor_widgets ?w E)) = None" unfolding sw by (rule py_int_too_long)
  have l: "lower (motor_name Z) = ''z''" "lower (motor_name R) = ''r''"
    "lower (motor_name E) = ''e''"
    by (simp_all add: lower_motor_name)
  have t: "transmitted ?u = []" "dialogs ?u = []" "transmitted ?v = []" "dialogs ?v = []"
    "write_calls ?w = []"
    by (simp_all add: ui_eval)
  note a = invalid_speed_sends_axis_only[OF r(1) s n, unfolded l t]
  note b = invalid_speed_sends_axis_only[OF r(2) s' n', unfolded l t]
  note c = invalid_speed_sends_axis_only[OF r(3) s'' n'', unfolded l t]
  from a b c r s n s' n' s'' n'' show ?thesis by simp
qed

text \<open>
  Claim C9. On a connected window whose writes succeed, for every axis, a blank speed text
  does not reject forward or backward: exactly two write calls are made, the axis-select
  line and the step or continuous-motion line, each followed by a line feed, no \<open>v=\<close>
  line, and no dialog is shown. The motion line is \<open>m=\<close> (backward \<open>n=\<close>) and the decimal
  numeral of \<open>n\<close> when the steps text parses as an integer \<open>n > 0\<close>, else \<open>a\<close> (backward \<open>d\<close>).
\<close>

theorem blank_speed_skips_speed_line:
  assumes "ready u" and "speed (motor_widgets u A) = []"
  shows "write_calls (move_forward A u) =
           write_calls u @
             [lower (motor_name A) @ [CHR 0x0A],
              (case py_int (steps (motor_widgets u A)) of
                 Some n \<Rightarrow> if n > 0 then ''m='' @ str_int n else ''a''
               | None \<Rightarrow> ''a'') @ [CHR 0x0A]]
       \<and> transmitted (move_forward A u) =
           transmitted u @
             [lower (motor_name A) @ [CHR 0x0A],
              (case py_int (steps (motor_widgets u A)) of
                 Some n \<Rightarrow> if n > 0 then ''m='' @ str_int n else ''a''
               | None \<Rightarrow> ''a'') @ [CHR 0x0A]]
       \<and> write_calls (move_backward A u) =
           write_calls u @
             [lower (motor_name A) @ [CHR 0x0A],
              (case py_int (steps (motor_widgets u A)) of
                 Some n \<Rightarrow> if n > 0 then ''n='' @ str_int n else ''d''
               | None \<Rightarrow> ''d'') @ [CHR 0x0A]]
       \<and> transmitted (move_backward A u) =
           transmitted u @
             [lower (motor_name A) @ [CHR 0x0A],
              (case py_int (steps (motor_widgets u A)) of
                 Some n \<Rightarrow> if n > 0 then ''n='' @ str_int n else ''d''
               | None \<Rightarrow> ''d'') @ [CHR 0x0A]]
       \<and> dialogs (move_forward A u) = dialogs u
       \<and> dialogs (move_backward A u) = dialogs u
       \<and> lower (motor_name A) =
           (case A of X \<Rightarrow> ''x'' | Y \<Rightarrow> ''y'' | Z \<Rightarrow> ''z'' | E \<Rightarrow> ''e'' | R \<Rightarrow> ''r'' | T \<Rightarrow> ''t'')
       \<and> (\<forall>i. \<exists>ks. str_int i = (if i < 0 then ''-'' else []) @ map ((!) ''0123456789'') ks
              \<and> list_all (\<lambda>k. k < 10) ks
              \<and> foldl (\<lambda>a k. 10 * a + k) 0 ks = nat \<bar>i\<bar>
              \<and> (hd ks = 0) = (i = 0)
              \<and> (length ks = 1) = (\<bar>i\<bar> < 10))"
proof -
  from select_and_speed_blank[OF assms] obtain u2 where
    u2: "select_and_speed A u = Inr u2" "ready u2" "motor_widgets u2 = motor_widgets u"
    and d2: "dialogs u2 = dialogs u"
    and t2: "transmitted u2 = transmitted u @ [payload_of (lower (motor_name A))]"
    and w2: "write_calls u2 = write_calls u @ [payload_of (lower (motor_name A))]"
    by blast
  note f = move_forward_after[OF assms(1) u2]
  note b = move_backward_after[OF assms(1) u2]
  have main: "write_calls (move_forward A u) =
           write_calls u @
             [lower (motor_name A) @ [CHR 0x0A],
              (case py_int (steps (motor_widgets u A)) of
                 Some n \<Rightarrow> if n > 0 then ''m='' @ str_int n else ''a''
               | None \<Rightarrow> ''a'') @ [CHR 0x0A]]
       \<and> transmitted (move_forward A u) =
           transmitted u @
             [lower (motor_name A) @ [CHR 0x0A],
              (case py_int (steps (motor_widgets u A)) of
                 Some n \<Rightarrow> if n > 0 then ''m='' @ str_int n else ''a''
               | None \<Rightarrow> ''a'') @ [CHR 0x0A]]
       \<and> write_calls (move_backward A u) =
           write_calls u @
             [lower (motor_name A) @ [CHR 0x0A],
              (case py_int (steps (motor_widgets u A)) of
                 Some n \<Rightarrow> if n > 0 then ''n='' @ str_int n else ''d''
               | None \<Rightarrow> ''d'') @ [CHR 0x0A]]
       \<and> transmitted (move_backward A u) =
           transmitted u @
             [lower (motor_name A) @ [CHR 0x0A],
              (case py_int (steps (motor_widgets u A)) of
                 Some n \<Rightarrow> if n > 0 then ''n='' @ str_int n else ''d''
               | None \<Rightarrow> ''d'') @ [CHR 0x0A]]
       \<and> dialogs (move_forward A u) = dialogs u
       \<and> dialogs (move_backward A u) = dialogs u"
    using f b d2 t2 w2 by (simp add: payload_nl)
  from main lower_motor_name[of A] str_int_decimal show ?thesis by blast
qed

theorem blank_speed_skips_speed_line_witness:
  "ready (type_steps E ''25'' (type_speed E [] connected_ui))
   \<and> speed (motor_widgets (type_steps E ''25'' (type_speed E [] connected_ui)) E) = []
   \<and> transmitted (move_forward E (type_steps E ''25'' (type_speed E [] connected_ui))) =
       [''e'' @ [CHR 0x0A], ''m=25'' @ [CHR 0x0A]]
   \<and> transmitted (move_backward E (type_steps E ''25'' (type_speed E [] connected_ui))) =
       [''e'' @ [CHR 0x0A], ''n=25'' @ [CHR 0x0A]]
   \<and> dialogs (move_forward E (type_steps E ''25'' (type_speed E [] connected_ui))) = []
   \<and> ready (type_steps E [CHR 0x1C, CHR ''5''] (type_speed E [] connected_ui))
   \<and> speed (motor_widgets (type_steps E [CHR 0x1C, CHR ''5''] (type_speed E [] connected_ui)) E) = []
   \<and> transmitted (move_forward E
         (type_steps E [CHR 0x1C, CHR ''5''] (type_speed E [] connected_ui))) =
       [''e'' @ [CHR 0x0A], ''a'' @ [CHR 0x0A]]
   \<and> ready (type_steps R ''1_200'' (type_speed R [] connected_ui))
   \<and> speed (motor_widgets (type_steps R ''1_200'' (type_speed R [] connected_ui)) R) = []
   \<and> transmitted (move_backward R (type_steps R ''1_200'' (type_speed R [] connected_ui))) =
       [''r'' @ [CHR 0x0A], ''n=1200'' @ [CHR 0x0A]]"
proof -
  let ?u = "type_steps E ''25'' (type_speed E [] connected_ui)"
  let ?v = "type_steps E [CHR 0x1C, CHR ''5''] (type_speed E [] connected_ui)"
  let ?w = "type_steps R ''1_200'' (type_speed R [] connected_ui)"
  have r: "ready ?u" "ready ?v" "ready ?w" by (simp_all add: ready_typed ready_connected_ui)
  have s: "speed (motor_widgets ?u E) = []" "speed (motor_widgets ?v E) = []"
    "speed (motor_widgets ?w R) = []"
    by (simp_all add: ui_eval)
  have l: "lower (motor_name E) = ''e''" "lower (motor_name R) = ''r''"
    by (simp_all add: lower_motor_name)
  have p: "py_int (steps (motor_widgets ?u E)) = Some 25"
    "py_int (steps (motor_widgets ?v E)) = None"
    "py_int (steps (motor_widgets ?w R)) = Some 1200"
    by (simp_all add: ui_eval text_eval)
  have t: "transmitted ?u = []" "dialogs ?u = []" "transmitted ?v = []" "transmitted ?w = []"
    by (simp_all add: ui_eval)
  have d: "str_int 25 = ''25''" "str_int 1200 = ''1200''"
    by (simp_all add: str_int_def digits.simps)
  note a = blank_speed_skips_speed_line[OF r(1) s(1), unfolded p l t d]
  note b = blank_speed_skips_speed_line[OF r(2) s(2), unfolded p l t d]
  note c = blank_speed_skips_speed_line[OF r(3) s(3), unfolded p l t d]
  from a b c r s show ?thesis by (simp add: d)
qed

section \<open>The servo angle\<close>

text \<open>
  Claim C3. On a connected window whose writes succeed, for every angle text: when it
  parses as an integer \<open>p\<close> with \<open>0 \<le> p \<le> 180\<close>, exactly the two lines \<open>s\<close> and \<open>p=\<close> with
  the decimal numeral of \<open>p\<close> are written, each followed by a line feed, one write call
  each; when it is not an integer, or \<open>p\<close> is outside that range, no write call is made and
  a warning about the angle is shown.
\<close>

theorem set_servo_angle_emits:
  assumes "ready u"
  shows "(case py_int (servo_angle_input u) of
            Some p \<Rightarrow>
              if 0 \<le> p \<and> p \<le> 180 then
                write_calls (set_servo_angle u) =
                  write_calls u @ [''s'' @ [CHR 0x0A], ''p='' @ str_int p @ [CHR 0x0A]]
                \<and> transmitted (set_servo_angle u) =
                  transmitted u @ [''s'' @ [CHR 0x0A], ''p='' @ str_int p @ [CHR 0x0A]]
                \<and> dialogs (set_servo_angle u) = dialogs u
              else
                write_calls (set_servo_angle u) = write_calls u
                \<and> transmitted (set_servo_angle u) = transmitted u
                \<and> dialogs (set_servo_angle u) = dialogs u @ [Warning Angle_out_of_range]
          | None \<Rightarrow>
              write_calls (set_servo_angle u) = write_calls u
              \<and> transmitted (set_servo_angle u) = transmitted u
              \<and> dialogs (set_servo_angle u) =
                  dialogs u @ [Warning (if servo_angle_input u = [] then Angle_missing
                                        else Invalid_angle)])
       \<and> (\<forall>i. \<exists>ks. str_int i = (if i < 0 then ''-'' else []) @ map ((!) ''0123456789'') ks
              \<and> list_all (\<lambda>k. k < 10) ks
              \<and> foldl (\<lambda>a k. 10 * a + k) 0 ks = nat \<bar>i\<bar>
              \<and> (hd ks = 0) = (i = 0)
              \<and> (length ks = 1) = (\<bar>i\<bar> < 10))"
proof -
  have main: "(case py_int (servo_angle_input u) of
            Some p \<Rightarrow>
              if 0 \<le> p \<and> p \<le> 180 then
                write_calls (set_servo_angle u) =
                  write_calls u @ [''s'' @ [CHR 0x0A], ''p='' @ str_int p @ [CHR 0x0A]]
                \<and> transmitted (set_servo_angle u) =
                  transmitted u @ [''s'' @ [CHR 0x0A], ''p='' @ str_int p @ [CHR 0x0A]]
                \<and> dialogs (set_servo_angle u) = dialogs u
              else
                write_calls (set_servo_angle u) = write_calls u
                \<and> transmitted (set_servo_angle u) = transmitted u
                \<and> dialogs (set_servo_angle u) = dialogs u @ [Warning Angle_out_of_range]
          | None \<Rightarrow>
              write_calls (set_servo_angle u) = write_calls u
              \<and> transmitted (set_servo_angle u) = transmitted u
              \<and> dialogs (set_servo_angle u) =
                  dialogs u @ [Warning (if servo_angle_input u = [] then Angle_missing
                                        else Invalid_angle)])"
  proof (cases "py_int (servo_angle_input u)")
    case None
    then show ?thesis
      using assms
      by (simp add: set_servo_angle_def check_connection_ready Let_def show_dialog_keeps)
  next
    case (Some p)
    then have ne: "servo_angle_input u \<noteq> []"
      using py_int_empty by auto
    have r1: "ready (snd (send_command ''s'' u))"
      using assms by (rule send_ready)
    show ?thesis
      using assms Some ne r1
      by (simp add: set_servo_angle_def check_connection_ready Let_def show_dialog_keeps
            send_ready payload_nl del: append.simps)
  qed
  from main str_int_decimal show ?thesis by blast
qed

theorem set_servo_angle_emits_witness:
  "ready connected_ui
   \<and> transmitted (set_servo_angle connected_ui) = [''s'' @ [CHR 0x0A], ''p=90'' @ [CHR 0x0A]]
   \<and> transmitted (set_servo_angle (connected_ui\<lparr>servo_angle_input := ''0''\<rparr>)) =
       [''s'' @ [CHR 0x0A], ''p=0'' @ [CHR 0x0A]]
   \<and> transmitted (set_servo_angle (connected_ui\<lparr>servo_angle_input := '' 7''\<rparr>)) =
       [''s'' @ [CHR 0x0A], ''p=7'' @ [CHR 0x0A]]
   \<and> write_calls (set_servo_angle (connected_ui\<lparr>servo_angle_input := ''180''\<rparr>)) =
       [''s'' @ [CHR 0x0A], ''p=180'' @ [CHR 0x0A]]
   \<and> transmitted (set_servo_angle (connected_ui\<lparr>servo_angle_input := ''181''\<rparr>)) = []
   \<and> dialogs (set_servo_angle (connected_ui\<lparr>servo_angle_input := ''181''\<rparr>)) =
       [Warning Angle_out_of_range]
   \<and> transmitted (set_servo_angle (connected_ui\<lparr>servo_angle_input := ''-1''\<rparr>)) = []
   \<and> dialogs (set_servo_angle (connected_ui\<lparr>servo_angle_input := ''-1''\<rparr>)) =
       [Warning Angle_out_of_range]
   \<and> transmitted (set_servo_angle (connected_ui\<lparr>servo_angle_input := ''9o''\<rparr>)) = []
   \<and> dialogs (set_servo_angle (connected_ui\<lparr>servo_angle_input := ''9o''\<rparr>)) =
       [Warning Invalid_angle]
   \<and> write_calls (set_servo_angle
         (connected_ui\<lparr>servo_angle_input := [CHR 0x1C, CHR ''9'', CHR ''0'']\<rparr>)) = []
   \<and> dialogs (set_servo_angle
         (connected_ui\<lparr>servo_angle_input := [CHR 0x1C, CHR ''9'', CHR ''0'']\<rparr>)) =
       [Warning Invalid_angle]
   \<and> dialogs (set_servo_angle (connected_ui\<lparr>servo_angle_input := []\<rparr>)) =
       [Warning Angle_missing]"
proof -
  have r: "ready (connected_ui\<lparr>servo_angle_input := t\<rparr>)" for t
    by (simp add: ready_def connected_ui_def fresh_port_def)
  have p: "py_int (servo_angle_input connected_ui) = Some 90"
    "py_int (servo_angle_input (connected_ui\<lparr>servo_angle_input := ''0''\<rparr>)) = Some 0"
    "py_int (servo_angle_input (connected_ui\<lparr>servo_angle_input := '' 7''\<rparr>)) = Some 7"
    "py_int (servo_angle_input (connected_ui\<lparr>servo_angle_input := ''180''\<rparr>)) = Some 180"
    "py_int (servo_angle_input (connected_ui\<lparr>servo_angle_input := ''181''\<rparr>)) = Some 181"
    "py_int (servo_angle_input (connected_ui\<lparr>servo_angle_input := ''-1''\<rparr>)) = Some (- 1)"
    "py_int (servo_angle_input (connected_ui\<lparr>servo_angle_input := ''9o''\<rparr>)) = None"
    "py_int (servo_angle_input
       (connected_ui\<lparr>servo_angle_input := [CHR 0x1C, CHR ''9'', CHR ''0'']\<rparr>)) = None"
    "py_int (servo_angle_input (connected_ui\<lparr>servo_angle_input := []\<rparr>)) = None"
    by (simp_all add: ui_eval text_eval)
  have d: "str_int 90 = ''90''" "str_int 0 = ''0''" "str_int 7 = ''7''" "str_int 180 = ''180''"
    by (simp_all add: str_int_def digits.simps)
  have t: "transmitted (connected_ui\<lparr>servo_angle_input := t\<rparr>) = []"
    "write_calls (connected_ui\<lparr>servo_angle_input := t\<rparr>) = []"
    "dialogs (connected_ui\<lparr>servo_angle_input := t\<rparr>) = []"
    "transmitted connected_ui = []" for t
    by (simp_all add: ui_eval)
  note a0 = set_servo_angle_emits[OF ready_connected_ui, THEN conjunct1, unfolded p]
  note a1 = set_servo_angle_emits[OF r[of "''0''"], THEN conjunct1, unfolded p]
  note a2 = set_servo_angle_emits[OF r[of "'' 7''"], THEN conjunct1, unfolded p]
  note a3 = set_servo_angle_emits[OF r[of "''180''"], THEN conjunct1, unfolded p]
  note a4 = set_servo_angle_emits[OF r[of "''181''"], THEN conjunct1, unfolded p]
  note a5 = set_servo_angle_emits[OF r[of "''-1''"], THEN conjunct1, unfolded p]
  note a6 = set_servo_angle_emits[OF r[of "''9o''"], THEN conjunct1, unfolded p]
  note a7 = set_servo_angle_emits[OF r[of "[CHR 0x1C, CHR ''9'', CHR ''0'']"], THEN conjunct1,
      unfolded p]
  note a8 = set_servo_angle_emits[OF r[of "[]"], THEN conjunct1, unfolded p]
  from a0 a1 a2 a3 a4 a5 a6 a7 a8 ready_connected_ui show ?thesis
    by (simp add: d t)
qed

section \<open>Steps of the thread\<close>

lemma run_exited: "pc (fst s) = Exited \<Longrightarrow> run s = Some s"
  by (subst run.simps) simp

lemma run_step: "pc (fst s) \<noteq> Exited \<Longrightarrow> run s = run (runner_step s)"
  by (subst run.simps) simp

lemma run_via:
  "pc r \<noteq> Exited \<Longrightarrow> runner_step (r, p) = s' \<Longrightarrow> run (r, p) = run s'"
  using run_step[of "(r, p)"] by simp

lemma step_Head_end:
  "pc r = Head i \<Longrightarrow> drop i (gcode_lines r) = [] \<Longrightarrow> runner_step (r, p) = (r\<lparr>pc := Finish\<rparr>, p)"
  by (simp add: runner_step_def)

lemma step_Head_stopped:
  "pc r = Head i \<Longrightarrow> \<not> running r \<Longrightarrow> runner_step (r, p) = (r\<lparr>pc := Finish\<rparr>, p)"
  by (simp add: runner_step_def split: list.splits)

lemma step_Head_next:
  "pc r = Head i \<Longrightarrow> drop i (gcode_lines r) = l # ls \<Longrightarrow> running r \<Longrightarrow>
   runner_step (r, p) = (r\<lparr>pc := PauseWait i l\<rparr>, p)"
  by (simp add: runner_step_def)

lemma step_PauseWait:
  "pc r = PauseWait i l \<Longrightarrow>
   runner_step (r, p) = (if paused r \<and> running r then (r, p) else (r\<lparr>pc := Recheck i l\<rparr>, p))"
  by (simp add: runner_step_def)

lemma step_Recheck:
  "pc r = Recheck i l \<Longrightarrow>
   runner_step (r, p) = (if running r then (r\<lparr>pc := Body i l\<rparr>, p) else (r\<lparr>pc := Finish\<rparr>, p))"
  by (simp add: runner_step_def)

lemma step_Body_skip:
  "pc r = Body i l \<Longrightarrow> skipped (strip l) \<Longrightarrow>
   runner_step (r, p) =
     (r\<lparr>pc := Head (Suc i), emitted := emitted r @ [Progress (Suc i) (length (gcode_lines r))]\<rparr>, p)"
  by (simp add: runner_step_def emit_def)

lemma step_Body_sent:
  "pc r = Body i l \<Longrightarrow> \<not> skipped (strip l) \<Longrightarrow> serial_write (payload_of (strip l)) p = (None, p') \<Longrightarrow>
   runner_step (r, p) =
     (r\<lparr>pc := Head (Suc i), emitted := emitted r @ [Progress (Suc i) (length (gcode_lines r))]\<rparr>, p')"
  by (simp add: runner_step_def emit_def)

lemma step_Body_failed:
  "pc r = Body i l \<Longrightarrow> \<not> skipped (strip l) \<Longrightarrow> serial_write (payload_of (strip l)) p = (Some e, p') \<Longrightarrow>
   runner_step (r, p) =
     (r\<lparr>pc := Finish, emitted := emitted r @ [Error (send_failed_msg (Suc i) e)]\<rparr>, p')"
  by (simp add: runner_step_def emit_def)

lemma step_Finish:
  "pc r = Finish \<Longrightarrow> runner_step (r, p) = (r\<lparr>pc := Exited, emitted := emitted r @ [Finished]\<rparr>, p)"
  by (simp add: runner_step_def emit_def)

lemma step_Exited: "pc r = Exited \<Longrightarrow> runner_step (r, p) = (r, p)"
  by (simp add: runner_step_def)

lemma run_from_Finish:
  assumes "pc r = Finish"
  shows "run (r, p) = Some (r\<lparr>pc := Exited, emitted := emitted r @ [Finished]\<rparr>, p)"
proof -
  have "run (r, p) = run (r\<lparr>pc := Exited, emitted := emitted r @ [Finished]\<rparr>, p)"
    using assms by (intro run_via) (simp_all add: step_Finish)
  then show ?thesis by (simp add: run_exited)
qed

text \<open>Left alone, the thread does what \<open>send_all\<close> says and then emits \<open>Finished\<close>.\<close>

lemma run_uninterrupted:
  assumes "drop i (gcode_lines r) = ls" and "pc r = Head i" and "running r" and "\<not> paused r"
  shows "run (r, p) =
           Some (r\<lparr>pc := Exited,
                   emitted := emitted r @ fst (send_all i (length (gcode_lines r)) ls p) @ [Finished]\<rparr>,
                 snd (send_all i (length (gcode_lines r)) ls p))"
  using assms
proof (induction ls arbitrary: i r p)
  case Nil
  have "run (r, p) = run (r\<lparr>pc := Finish\<rparr>, p)"
    using Nil by (intro run_via) (simp_all add: step_Head_end)
  then show ?case
    by (simp add: run_from_Finish)
next
  case (Cons l ls)
  have d: "drop (Suc i) (gcode_lines r) = ls"
    using Cons.prems(1) by (metis drop_Suc list.sel(3) tl_drop)
  let ?r1 = "r\<lparr>pc := PauseWait i l\<rparr>"
  let ?r2 = "r\<lparr>pc := Recheck i l\<rparr>"
  let ?r3 = "r\<lparr>pc := Body i l\<rparr>"
  have "run (r, p) = run (?r1, p)"
    using Cons.prems by (intro run_via) (simp_all add: step_Head_next)
  also have "\<dots> = run (?r2, p)"
    using Cons.prems by (intro run_via) (simp_all add: step_PauseWait)
  also have "\<dots> = run (?r3, p)"
    using Cons.prems by (intro run_via) (simp_all add: step_Recheck)
  finally have to_body: "run (r, p) = run (?r3, p)" .
  show ?case
  proof (cases "skipped (strip l)")
    case True
    let ?r4 = "r\<lparr>pc := Head (Suc i), emitted := emitted r @ [Progress (Suc i) (length (gcode_lines r))]\<rparr>"
    have "run (?r3, p) = run (?r4, p)"
      using True by (intro run_via) (simp_all add: step_Body_skip)
    also have "\<dots> = Some (?r4\<lparr>pc := Exited,
                   emitted := emitted ?r4 @ fst (send_all (Suc i) (length (gcode_lines ?r4)) ls p) @ [Finished]\<rparr>,
                 snd (send_all (Suc i) (length (gcode_lines ?r4)) ls p))"
      using d Cons.prems by (intro Cons.IH) simp_all
    finally show ?thesis
      using True to_body by (simp add: split_beta)
  next
    case False
    obtain res p1 where w: "serial_write (payload_of (strip l)) p = (res, p1)"
      by (cases "serial_write (payload_of (strip l)) p")
    show ?thesis
    proof (cases res)
      case None
      let ?r4 = "r\<lparr>pc := Head (Suc i), emitted := emitted r @ [Progress (Suc i) (length (gcode_lines r))]\<rparr>"
      have "run (?r3, p) = run (?r4, p1)"
        using False w None by (intro run_via) (simp_all add: step_Body_sent)
      also have "\<dots> = Some (?r4\<lparr>pc := Exited,
                   emitted := emitted ?r4 @ fst (send_all (Suc i) (length (gcode_lines ?r4)) ls p1) @ [Finished]\<rparr>,
                 snd (send_all (Suc i) (length (gcode_lines ?r4)) ls p1))"
        using d Cons.prems by (intro Cons.IH) simp_all
      finally show ?thesis
        using False to_body w None by (simp add: split_beta)
    next
      case (Some e)
      have "run (?r3, p) = run (r\<lparr>pc := Finish, emitted := emitted r @ [Error (send_failed_msg (Suc i) e)]\<rparr>, p1)"
        using False w Some by (intro run_via) (simp_all add: step_Body_failed)
      then show ?thesis
        using False to_body w Some by (simp add: run_from_Finish)
    qed
  qed
qed

lemma run_new_runner:
  "run (new_runner ls, p) =
     Some (\<lparr>gcode_lines = ls, running = True, paused = False, pc = Exited,
            emitted = fst (send_all 0 (length ls) ls p) @ [Finished]\<rparr>,
           snd (send_all 0 (length ls) ls p))"
  using run_uninterrupted[of 0 "new_runner ls" ls p]
  by (simp add: new_runner_def)


section \<open>The loop on particular ports\<close>

lemma serial_write_clean:
  "is_open p \<Longrightarrow> faults p = [] \<Longrightarrow>
   serial_write d p = (None, p\<lparr>attempts := attempts p @ [d], wire := wire p @ [d]\<rparr>)"
  by (simp add: serial_write_def)

lemma serial_write_pass:
  "is_open p \<Longrightarrow> faults p = None # fs \<Longrightarrow>
   serial_write d p = (None, p\<lparr>attempts := attempts p @ [d], wire := wire p @ [d], faults := fs\<rparr>)"
  by (simp add: serial_write_def)

lemma serial_write_fault:
  "is_open p \<Longrightarrow> faults p = Some e # fs \<Longrightarrow>
   serial_write d p = (Some e, p\<lparr>attempts := attempts p @ [d], faults := fs\<rparr>)"
  by (simp add: serial_write_def)

lemma send_all_clean:
  assumes "is_open p" and "faults p = []"
  shows "send_all i n ls p =
           (map (\<lambda>j. Progress j n) [Suc i ..< Suc i + length ls],
            p\<lparr>attempts := attempts p @ map payload_of (filter (\<lambda>l. \<not> skipped l) (map strip ls)),
              wire := wire p @ map payload_of (filter (\<lambda>l. \<not> skipped l) (map strip ls))\<rparr>)"
  using assms
proof (induction ls arbitrary: i p)
  case Nil
  then show ?case by simp
next
  case (Cons l ls)
  show ?case
  proof (cases "skipped (strip l)")
    case True
    then show ?thesis
      using Cons.IH[OF Cons.prems, of "Suc i"] by (simp add: upt_conv_Cons del: upt_Suc)
  next
    case False
    let ?p1 = "p\<lparr>attempts := attempts p @ [payload_of (strip l)], wire := wire p @ [payload_of (strip l)]\<rparr>"
    have "is_open ?p1" "faults ?p1 = []" using Cons.prems by simp_all
    from Cons.IH[OF this, of "Suc i"] False show ?thesis
      using Cons.prems by (simp add: serial_write_clean upt_conv_Cons Let_def del: upt_Suc)
  qed
qed

lemma send_all_fault:
  assumes "is_open p" and "faults p = replicate m None @ Some e # fs"
    and "m < length ls" and "\<forall>l\<in>set ls. \<not> skipped (strip l)"
  shows "send_all i n ls p =
           (map (\<lambda>j. Progress j n) [Suc i ..< Suc i + m] @ [Error (send_failed_msg (Suc i + m) e)],
            p\<lparr>attempts := attempts p @ map (\<lambda>l. payload_of (strip l)) (take (Suc m) ls),
              wire := wire p @ map (\<lambda>l. payload_of (strip l)) (take m ls),
              faults := fs\<rparr>)"
  using assms
proof (induction ls arbitrary: i p m)
  case Nil
  then show ?case by simp
next
  case (Cons l ls)
  show ?case
  proof (cases m)
    case 0
    then show ?thesis
      using Cons.prems by (simp add: serial_write_fault)
  next
    case (Suc k)
    let ?p1 = "p\<lparr>attempts := attempts p @ [payload_of (strip l)],
                  wire := wire p @ [payload_of (strip l)],
                  faults := replicate k None @ Some e # fs\<rparr>"
    have w: "serial_write (payload_of (strip l)) p = (None, ?p1)"
      using Cons.prems Suc by (simp add: serial_write_pass)
    have "is_open ?p1" "faults ?p1 = replicate k None @ Some e # fs" "k < length ls"
      "\<forall>l\<in>set ls. \<not> skipped (strip l)"
      using Cons.prems Suc by simp_all
    from Cons.IH[OF this, of "Suc i"] show ?thesis
      using Cons.prems w Suc by (simp add: upt_conv_Cons Let_def del: upt_Suc)
  qed
qed

section \<open>A write failure during a run\<close>

text \<open>
  Claim C6. For every program of \<open>N\<close> sendable lines run on an open port whose write
  succeeds \<open>k - 1\<close> times and then fails with the text \<open>e\<close> (\<open>1 \<le> k \<le> N\<close>), the thread left
  alone returns; it has called write exactly \<open>k\<close> times, on lines \<open>1..k\<close> in order, each
  stripped and followed by a line feed; lines \<open>1..k-1\<close> are on the wire and nothing else;
  and after \<open>k - 1\<close> progress signals it has emitted the error signal, whose text is
  \<open>Sat\<close>, dotless i, \<open>r\<close>, a space, the decimal numeral of \<open>k\<close>, \<open>g\<close>, o with diaeresis,
  \<open>nderilemedi:\<close>, a space and \<open>e\<close> (the two letters in UTF-8), followed by \<open>Finished\<close>.
\<close>

theorem send_failure_at_line_k:
  assumes "is_open p" and "\<forall>l\<in>set ls. \<not> skipped (strip l)"
    and "1 \<le> k" and "k \<le> length ls"
    and "faults p = replicate (k - 1) None @ Some e # fs"
  shows "(\<exists>r' p'. run (new_runner ls, p) = Some (r', p')
           \<and> pc r' = Exited
           \<and> attempts p' = attempts p @ map (\<lambda>l. strip l @ [CHR 0x0A]) (take k ls)
           \<and> length (attempts p') = length (attempts p) + k
           \<and> wire p' = wire p @ map (\<lambda>l. strip l @ [CHR 0x0A]) (take (k - 1) ls)
           \<and> emitted r' =
               map (\<lambda>j. Progress j (length ls)) [1 ..< k] @
               [Error (''Sat'' @ [CHR 0xC4, CHR 0xB1] @ ''r '' @ digits k @
                       '' g'' @ [CHR 0xC3, CHR 0xB6] @ ''nderilemedi: '' @ e),
                Finished])
       \<and> (\<exists>ks. digits k = map ((!) ''0123456789'') ks
              \<and> list_all (\<lambda>d. d < 10) ks
              \<and> foldl (\<lambda>a d. 10 * a + d) 0 ks = k
              \<and> (hd ks = 0) = (k = 0)
              \<and> (length ks = 1) = (k < 10))"
proof -
  obtain m where k: "k = Suc m" using assms(3) by (cases k) simp_all
  have m: "m < length ls" and f: "faults p = replicate m None @ Some e # fs"
    using assms(4,5) k by simp_all
  note sa = send_all_fault[OF assms(1) f m assms(2), of 0 "length ls"]
  have main: "\<exists>r' p'. run (new_runner ls, p) = Some (r', p')
           \<and> pc r' = Exited
           \<and> attempts p' = attempts p @ map (\<lambda>l. strip l @ [CHR 0x0A]) (take k ls)
           \<and> length (attempts p') = length (attempts p) + k
           \<and> wire p' = wire p @ map (\<lambda>l. strip l @ [CHR 0x0A]) (take (k - 1) ls)
           \<and> emitted r' =
               map (\<lambda>j. Progress j (length ls)) [1 ..< k] @
               [Error (''Sat'' @ [CHR 0xC4, CHR 0xB1] @ ''r '' @ digits k @
                       '' g'' @ [CHR 0xC3, CHR 0xB6] @ ''nderilemedi: '' @ e),
                Finished]"
    using assms(4)
    by (simp add: run_new_runner sa k min_absorb2 payload_nl send_failed_msg_def)
  from main digits_decimal[of k] show ?thesis by (rule conjI)
qed

theorem send_failure_at_line_k_witness:
  "is_open (fresh_port\<lparr>faults := [None, Some ''Write timeout'']\<rparr>)
   \<and> list_all (\<lambda>l. \<not> skipped (strip l)) [''G28'', '' G1 X10 '', ''G1 X0'']
   \<and> (1::nat) \<le> 2 \<and> (2::nat) \<le> length [''G28'', '' G1 X10 '', ''G1 X0'']
   \<and> faults (fresh_port\<lparr>faults := [None, Some ''Write timeout'']\<rparr>) =
       replicate (2 - 1) None @ Some ''Write timeout'' # []
   \<and> (\<exists>r' p'. run (new_runner [''G28'', '' G1 X10 '', ''G1 X0''],
                    fresh_port\<lparr>faults := [None, Some ''Write timeout'']\<rparr>) = Some (r', p')
         \<and> attempts p' = [''G28'' @ [CHR 0x0A], ''G1 X10'' @ [CHR 0x0A]]
         \<and> wire p' = [''G28'' @ [CHR 0x0A]]
         \<and> emitted r' =
             [Progress 1 3,
              Error (''Sat'' @ [CHR 0xC4, CHR 0xB1] @ ''r 2 g'' @ [CHR 0xC3, CHR 0xB6] @
                     ''nderilemedi: Write timeout''),
              Finished])"
proof -
  let ?p = "fresh_port\<lparr>faults := [None, Some ''Write timeout'']\<rparr>"
  let ?ls = "[''G28'', '' G1 X10 '', ''G1 X0'']"
  have a: "is_open ?p" by (simp add: fresh_port_def)
  have b: "\<forall>l\<in>set ?ls. \<not> skipped (strip l)"
    by (simp add: skipped_def startswith_def strip_def isspace_def)
  have c: "(1::nat) \<le> 2" "(2::nat) \<le> length ?ls" by simp_all
  have d: "faults ?p = replicate (2 - 1) None @ Some ''Write timeout'' # []"
    by (simp add: fresh_port_def)
  have s: "strip ''G28'' = ''G28''" "strip '' G1 X10 '' = ''G1 X10''"
    by (simp_all add: strip_def isspace_def)
  have t: "attempts ?p = []" "wire ?p = []" by (simp_all add: fresh_port_def)
  have g: "digits 2 = ''2''" by (simp add: digits.simps)
  show ?thesis
    using send_failure_at_line_k[OF a b c d, THEN conjunct1] a b d s t g
    by (auto simp: numeral_2_eq_2 numeral_3_eq_3 list_all_iff)
qed

section \<open>Invariants of every execution\<close>

lemma act_not_Tick: "a \<noteq> Tick \<Longrightarrow> pc (fst (act a s)) = pc (fst s) \<and> emitted (fst (act a s)) = emitted (fst s)
    \<and> gcode_lines (fst (act a s)) = gcode_lines (fst s) \<and> snd (act a s) = snd s"
  by (cases a) (simp_all add: stop_def pause_def resume_def)

lemma signals_ok_new: "signals_ok (new_runner ls)"
  by (simp add: signals_ok_def new_runner_def)

lemma signals_ok_step: "signals_ok (fst s) \<Longrightarrow> signals_ok (fst (runner_step s))"
  by (cases s; cases "pc (fst s)")
     (auto simp: signals_ok_def runner_step_def emit_def Let_def
           split: list.splits prod.splits option.splits)

lemma signals_ok_cong:
  "pc r' = pc r \<Longrightarrow> emitted r' = emitted r \<Longrightarrow> signals_ok r' = signals_ok r"
  by (simp add: signals_ok_def split: pc.splits)

lemma signals_ok_act:
  assumes "signals_ok (fst s)"
  shows "signals_ok (fst (act a s))"
proof (cases "a = Tick")
  case True
  then show ?thesis using assms by (simp add: signals_ok_step)
next
  case False
  from act_not_Tick[OF False, of s] assms show ?thesis
    using signals_ok_cong[of "fst (act a s)" "fst s"] by simp
qed

lemma signals_ok_exec: "signals_ok (fst s) \<Longrightarrow> signals_ok (fst (exec as s))"
  by (induction as arbitrary: s) (simp_all add: signals_ok_act)

lemma count_progress: "list_all is_progress pre \<Longrightarrow> count_list pre Finished = 0"
  by (induction pre) auto

lemma signals_ok_count:
  assumes "signals_ok r"
  shows "count_list (emitted r) Finished = (if pc r = Exited then 1 else 0)"
  using assms
  by (cases "pc r") (auto simp: signals_ok_def count_progress)

lemma signals_ok_last:
  assumes "signals_ok r" and "pc r = Exited"
  shows "emitted r \<noteq> [] \<and> last (emitted r) = Finished"
  using assms by (auto simp: signals_ok_def)

section \<open>What run returns is reached by thread steps\<close>

lemma exec_append: "exec (as @ bs) s = exec bs (exec as s)"
  by (induction as arbitrary: s) simp_all

lemma run_is_exec:
  assumes "run s = Some s'"
  shows "\<exists>n. exec (replicate n Tick) s = s' \<and> pc (fst s') = Exited"
  using assms
proof (induction rule: run.raw_induct[rotated 1, consumes 1])
  case (1 run s s')
  show ?case
  proof (cases "pc (fst s) = Exited")
    case True
    with 1(2) have "s' = s" by simp
    with True show ?thesis by (intro exI[of _ 0]) simp
  next
    case False
    with 1(2) have "run (runner_step s) = Some s'" by simp
    from 1(1)[OF this] obtain n where "exec (replicate n Tick) (runner_step s) = s'" "pc (fst s') = Exited"
      by blast
    then show ?thesis by (intro exI[of _ "Suc n"]) simp
  qed
qed

section \<open>After a stop request\<close>

lemma not_running_act: "\<not> running (fst s) \<Longrightarrow> \<not> running (fst (act a s))"
  by (cases a; cases s; cases "pc (fst s)")
     (auto simp: runner_step_def emit_def stop_def pause_def resume_def Let_def
           split: list.splits prod.splits option.splits)

lemma stopped_step_rank:
  "\<not> running (fst s) \<Longrightarrow> steps_left (pc (fst (runner_step s))) \<le> steps_left (pc (fst s)) - 1"
  by (cases s; cases "pc (fst s)")
     (auto simp: runner_step_def emit_def Let_def
           split: list.splits prod.splits option.splits)

lemma stopped_exec_rank:
  "\<not> running (fst s) \<Longrightarrow>
   steps_left (pc (fst (exec as s))) \<le> steps_left (pc (fst s)) - count_list as Tick"
proof (induction as arbitrary: s)
  case Nil
  then show ?case by simp
next
  case (Cons a as)
  have nr: "\<not> running (fst (act a s))" using Cons.prems by (rule not_running_act)
  note ih = Cons.IH[OF nr]
  show ?case
  proof (cases "a = Tick")
    case True
    with ih stopped_step_rank[OF Cons.prems] show ?thesis by simp
  next
    case False
    with ih act_not_Tick[OF False, of s] show ?thesis by simp
  qed
qed

lemma steps_left_le_3: "steps_left c \<le> 3"
  by (cases c) simp_all

lemma steps_left_0: "steps_left c = 0 \<longleftrightarrow> c = Exited"
  by (cases c) simp_all

lemma stopped_exits:
  assumes "\<not> running (fst s)" and "3 \<le> count_list as Tick"
  shows "pc (fst (exec as s)) = Exited"
  using stopped_exec_rank[OF assms(1), of as] assms(2) steps_left_le_3[of "pc (fst s)"]
  by (simp add: steps_left_0[symmetric])

text \<open>Writes after a stop request: none, or the one line that was in flight.\<close>

lemma stopped_step_writes:
  assumes "\<not> running (fst s)"
  shows "(case pc (fst s) of
            Body i l \<Rightarrow>
              (snd (runner_step s) = snd s
               \<or> (attempts (snd (runner_step s)) = attempts (snd s) @ [payload_of (strip l)]
                  \<and> (wire (snd (runner_step s)) = wire (snd s)
                      \<or> wire (snd (runner_step s)) = wire (snd s) @ [payload_of (strip l)])))
              \<and> (\<forall>j l'. pc (fst (runner_step s)) \<noteq> Body j l')
          | _ \<Rightarrow> snd (runner_step s) = snd s \<and> (\<forall>j l'. pc (fst (runner_step s)) \<noteq> Body j l'))"
  using assms
  by (cases s; cases "pc (fst s)")
     (auto simp: runner_step_def emit_def Let_def serial_write_def
           split: list.splits prod.splits option.splits if_splits)

lemma stopped_no_write:
  assumes "\<not> running (fst s)" and "\<forall>i l. pc (fst s) \<noteq> Body i l"
  shows "snd (exec as s) = snd s"
  using assms
proof (induction as arbitrary: s)
  case Nil
  then show ?case by simp
next
  case (Cons a as)
  have nr: "\<not> running (fst (act a s))" using Cons.prems(1) by (rule not_running_act)
  show ?case
  proof (cases "a = Tick")
    case True
    from stopped_step_writes[OF Cons.prems(1)] Cons.prems(2)
    have "snd (runner_step s) = snd s \<and> (\<forall>j l'. pc (fst (runner_step s)) \<noteq> Body j l')"
      by (cases "pc (fst s)") simp_all
    with Cons.IH[of "act a s"] nr True show ?thesis by simp
  next
    case False
    with Cons.IH[of "act a s"] nr act_not_Tick[OF False, of s] Cons.prems(2)
    show ?thesis by simp
  qed
qed

lemma stopped_in_flight:
  assumes "\<not> running (fst s)" and "pc (fst s) = Body i l"
  shows "snd (exec as s) = snd s
         \<or> (attempts (snd (exec as s)) = attempts (snd s) @ [payload_of (strip l)]
            \<and> (wire (snd (exec as s)) = wire (snd s)
                \<or> wire (snd (exec as s)) = wire (snd s) @ [payload_of (strip l)]))"
  using assms
proof (induction as arbitrary: s)
  case Nil
  then show ?case by simp
next
  case (Cons a as)
  have nr: "\<not> running (fst (act a s))" using Cons.prems(1) by (rule not_running_act)
  show ?case
  proof (cases "a = Tick")
    case True
    from stopped_step_writes[OF Cons.prems(1)] Cons.prems(2)
    have st: "snd (runner_step s) = snd s
               \<or> (attempts (snd (runner_step s)) = attempts (snd s) @ [payload_of (strip l)]
                  \<and> (wire (snd (runner_step s)) = wire (snd s)
                      \<or> wire (snd (runner_step s)) = wire (snd s) @ [payload_of (strip l)]))"
      and nb: "\<forall>j l'. pc (fst (runner_step s)) \<noteq> Body j l'"
      by simp_all
    have "snd (exec as (runner_step s)) = snd (runner_step s)"
      using nr nb True by (intro stopped_no_write) simp_all
    with st True show ?thesis by simp
  next
    case False
    with Cons.IH[of "act a s"] nr act_not_Tick[OF False, of s] Cons.prems(2)
    show ?thesis by simp
  qed
qed

lemma step_exited_id: "pc (fst s) = Exited \<Longrightarrow> runner_step s = s"
  by (simp add: runner_step_def)

lemma exec_ticks_exited: "pc (fst s) = Exited \<Longrightarrow> exec (replicate n Tick) s = s"
  by (induction n) (simp_all add: step_exited_id)

lemma run_exec:
  "pc (fst (exec (replicate n Tick) s)) = Exited \<Longrightarrow> run s = Some (exec (replicate n Tick) s)"
proof (induction n arbitrary: s)
  case 0
  then show ?case by (simp add: run_exited)
next
  case (Suc n)
  show ?case
  proof (cases "pc (fst s) = Exited")
    case True
    have "exec (replicate (Suc n) Tick) s = s"
      using True by (rule exec_ticks_exited)
    moreover have "run s = Some s" using True by (rule run_exited)
    ultimately show ?thesis by simp
  next
    case False
    have e: "exec (replicate (Suc n) Tick) s = exec (replicate n Tick) (runner_step s)"
      by simp
    have "pc (fst (exec (replicate n Tick) (runner_step s))) = Exited"
      using Suc.prems e by simp
    then have "run (runner_step s) = Some (exec (replicate n Tick) (runner_step s))"
      by (rule Suc.IH)
    moreover have "run s = run (runner_step s)" using False by (rule run_step)
    ultimately show ?thesis using e by simp
  qed
qed

lemma run_stopped:
  assumes "\<not> running (fst s)"
  shows "run s = Some (exec (replicate 3 Tick) s) \<and> pc (fst (exec (replicate 3 Tick) s)) = Exited"
proof -
  have c: "3 \<le> count_list (replicate 3 Tick) Tick"
    by (simp add: numeral_3_eq_3)
  have e: "pc (fst (exec (replicate 3 Tick) s)) = Exited"
    using assms c by (rule stopped_exits)
  from run_exec[OF e] e show ?thesis by blast
qed

lemma drop_Cons_nth:
  assumes "drop i xs = l # rest"
  shows "i < length xs \<and> xs ! i = l"
proof -
  have i: "i < length xs" using assms by (cases "i < length xs") simp_all
  have "hd (drop i xs) = xs ! i" using i by (rule hd_drop_conv_nth)
  moreover have "hd (drop i xs) = l" by (simp only: assms list.sel)
  ultimately show ?thesis using i by metis
qed


lemma in_program_step:
  assumes "in_program (fst s)"
  shows "in_program (fst (runner_step s)) \<and> gcode_lines (fst (runner_step s)) = gcode_lines (fst s)"
proof -
  obtain r p where s: "s = (r, p)" by (cases s)
  show ?thesis
  proof (cases "pc r")
    case (Head i)
    show ?thesis
    proof (cases "drop i (gcode_lines r)")
      case Nil
      then show ?thesis using Head s by (simp add: step_Head_end in_program_def)
    next
      case (Cons l rest)
      from drop_Cons_nth[OF this] show ?thesis
        using Head Cons s
        by (cases "running r") (simp_all add: step_Head_next step_Head_stopped in_program_def)
    qed
  next
    case (PauseWait i l)
    then show ?thesis using assms s by (simp add: step_PauseWait in_program_def)
  next
    case (Recheck i l)
    then show ?thesis using assms s by (simp add: step_Recheck in_program_def)
  next
    case (Body i l)
    obtain res p1 where w: "serial_write (payload_of (strip l)) p = (res, p1)"
      by (cases "serial_write (payload_of (strip l)) p")
    show ?thesis
    proof (cases "skipped (strip l)")
      case True
      then show ?thesis using Body s by (simp add: step_Body_skip in_program_def)
    next
      case False
      then show ?thesis using Body s w
        by (cases res) (simp_all add: step_Body_sent step_Body_failed in_program_def)
    qed
  next
    case Finish
    then show ?thesis using s by (simp add: step_Finish in_program_def)
  next
    case Exited
    then show ?thesis using s assms by (simp add: step_Exited)
  qed
qed

lemma in_program_act:
  assumes "in_program (fst s)"
  shows "in_program (fst (act a s)) \<and> gcode_lines (fst (act a s)) = gcode_lines (fst s)"
proof (cases "a = Tick")
  case True
  then show ?thesis using in_program_step[OF assms] by simp
next
  case False
  from act_not_Tick[OF False, of s] assms show ?thesis
    by (simp add: in_program_def split: pc.splits)
qed

lemma in_program_exec:
  "in_program (fst s) \<Longrightarrow>
   in_program (fst (exec as s)) \<and> gcode_lines (fst (exec as s)) = gcode_lines (fst s)"
proof (induction as arbitrary: s)
  case Nil
  then show ?case by simp
next
  case (Cons a as)
  from in_program_act[OF Cons.prems, of a] Cons.IH[of "act a s"] show ?case by simp
qed

lemma in_program_new: "in_program (new_runner ls)"
  by (simp add: in_program_def new_runner_def)

lemmas runner_eval =
  runner_step_def new_runner_def emit_def Let_def skipped_def startswith_def strip_def
  isspace_def serial_write_def payload_of_def fresh_port_def stop_def pause_def resume_def

section \<open>The completion signal\<close>

text \<open>
  Claim C10. In every execution of every program the thread emits \<open>Finished\<close> exactly
  once, as its last signal, when \<^verbatim>\<open>run\<close> returns and not before: after the progress
  signals of a run that went through or was stopped, and directly after the error signal
  of a run whose write failed. Left alone, and also after a stop request at any point, the
  thread does return. In the window, the error slot runs the completion slot first, so the
  completion message precedes the error message.
\<close>

theorem finished_exactly_once:
  "count_list (emitted (fst (exec as (new_runner ls, p)))) Finished =
     (if pc (fst (exec as (new_runner ls, p))) = Exited then 1 else 0)
   \<and> (pc (fst (exec as (new_runner ls, p))) = Exited \<longrightarrow>
        (\<exists>pre. list_all is_progress pre \<and>
           (emitted (fst (exec as (new_runner ls, p))) = pre @ [Finished]
            \<or> (\<exists>m. emitted (fst (exec as (new_runner ls, p))) = pre @ [Error m, Finished]))))
   \<and> (\<exists>s'. run (new_runner ls, p) = Some s' \<and> pc (fst s') = Exited
            \<and> count_list (emitted (fst s')) Finished = 1)
   \<and> (\<exists>s'. run (exec (as @ [Stop]) (new_runner ls, p)) = Some s' \<and> pc (fst s') = Exited
            \<and> count_list (emitted (fst s')) Finished = 1)
   \<and> dialogs (on_gcode_error msg u) =
        dialogs u @ [Information Gcode_completed, Critical (Gcode_error msg)]"
proof -
  let ?init = "(new_runner ls, p)"
  have ok: "signals_ok (fst (exec bs ?init))" for bs
    by (rule signals_ok_exec) (simp add: signals_ok_new)
  have a: "count_list (emitted (fst (exec as ?init))) Finished =
     (if pc (fst (exec as ?init)) = Exited then 1 else 0)"
    using ok by (rule signals_ok_count)
  have b: "pc (fst (exec as ?init)) = Exited \<longrightarrow>
        (\<exists>pre. list_all is_progress pre \<and>
           (emitted (fst (exec as ?init)) = pre @ [Finished]
            \<or> (\<exists>m. emitted (fst (exec as ?init)) = pre @ [Error m, Finished])))"
    using ok[of as] by (auto simp: signals_ok_def)
  have ret: "\<exists>s'. run (exec bs ?init) = Some s' \<and> pc (fst s') = Exited
            \<and> count_list (emitted (fst s')) Finished = 1"
    if "run (exec bs ?init) = Some s1" for bs s1
  proof -
    from run_is_exec[OF that] obtain n where
      n: "exec (replicate n Tick) (exec bs ?init) = s1" and e: "pc (fst s1) = Exited"
      by blast
    have "s1 = exec (bs @ replicate n Tick) ?init"
      using n by (simp add: exec_append)
    then have "signals_ok (fst s1)" using ok by simp
    from signals_ok_count[OF this] e that show ?thesis by simp
  qed
  have c: "\<exists>s'. run ?init = Some s' \<and> pc (fst s') = Exited
            \<and> count_list (emitted (fst s')) Finished = 1"
    using ret[of "[]"] by (simp add: run_new_runner)
  have "\<not> running (fst (exec (as @ [Stop]) ?init))"
    by (simp add: exec_append stop_def)
  from run_stopped[OF this]
  have d: "\<exists>s'. run (exec (as @ [Stop]) ?init) = Some s' \<and> pc (fst s') = Exited
            \<and> count_list (emitted (fst s')) Finished = 1"
    using ret[of "as @ [Stop]"] by blast
  have e: "dialogs (on_gcode_error msg u) =
        dialogs u @ [Information Gcode_completed, Critical (Gcode_error msg)]"
    by (simp add: on_gcode_error_def on_gcode_finished_def show_dialog_def)
  from a b c d e show ?thesis by blast
qed

theorem finished_exactly_once_witness:
  "pc (fst (exec (replicate 5 Tick)
             (new_runner [''G28''], fresh_port\<lparr>faults := [Some ''Write timeout'']\<rparr>))) = Exited
   \<and> emitted (fst (exec (replicate 5 Tick)
             (new_runner [''G28''], fresh_port\<lparr>faults := [Some ''Write timeout'']\<rparr>))) =
       [Error (send_failed_msg 1 ''Write timeout''), Finished]
   \<and> count_list (emitted (fst (exec (replicate 5 Tick)
             (new_runner [''G28''], fresh_port\<lparr>faults := [Some ''Write timeout'']\<rparr>)))) Finished = 1"
proof -
  let ?s = "exec (replicate 5 Tick)
             (new_runner [''G28''], fresh_port\<lparr>faults := [Some ''Write timeout'']\<rparr>)"
  have e: "pc (fst ?s) = Exited"
    and m: "emitted (fst ?s) = [Error (send_failed_msg 1 ''Write timeout''), Finished]"
    by (simp_all add: runner_eval eval_nat_numeral)
  from finished_exactly_once[of "replicate 5 Tick" "[''G28'']"
      "fresh_port\<lparr>faults := [Some ''Write timeout'']\<rparr>"] e m
  show ?thesis by simp
qed

section \<open>A stop request during a run\<close>

text \<open>
  Claim C5, as stated, is refuted in its second half: a two-line program stopped after
  its first line ends with the signal \<open>Finished\<close>, the very signal that ends the same
  program when it runs to completion; the second line is not sent.
\<close>

theorem stop_terminal_signal_counterexample:
  "emitted (fst (exec [Tick, Tick, Tick, Tick, Stop, Tick, Tick]
                  (new_runner [''G28'', ''G1 X10''], fresh_port))) = [Progress 1 2, Finished]
   \<and> wire (snd (exec [Tick, Tick, Tick, Tick, Stop, Tick, Tick]
                  (new_runner [''G28'', ''G1 X10''], fresh_port))) = [payload_of ''G28'']
   \<and> pc (fst (exec [Tick, Tick, Tick, Tick, Stop, Tick, Tick]
                  (new_runner [''G28'', ''G1 X10''], fresh_port))) = Exited
   \<and> emitted (fst (exec (replicate 10 Tick)
                  (new_runner [''G28'', ''G1 X10''], fresh_port))) =
       [Progress 1 2, Progress 2 2, Finished]
   \<and> last (emitted (fst (exec [Tick, Tick, Tick, Tick, Stop, Tick, Tick]
                  (new_runner [''G28'', ''G1 X10''], fresh_port)))) =
     last (emitted (fst (exec (replicate 10 Tick)
                  (new_runner [''G28'', ''G1 X10''], fresh_port))))"
  by (simp add: runner_eval eval_nat_numeral)

text \<open>
  Claim C5, amended. For every program run and every point at which \<^verbatim>\<open>stop()\<close> is
  requested: afterwards the port is left as it was, or, when the request arrived while line
  \<open>i + 1\<close> was in flight (past the second check of \<open>running\<close>), that one line is handed to
  write and nothing else; the thread returns within three of its steps; and the signal that
  ends the run is \<open>Finished\<close>, emitted exactly once, as for a run that completes (the thread
  has no signal of its own for a stop).
\<close>

theorem stop_request_effect:
  "(snd (exec (as0 @ Stop # as1) (new_runner ls, p)) = snd (exec as0 (new_runner ls, p))
    \<or> (\<exists>i l. pc (fst (exec as0 (new_runner ls, p))) = Body i l \<and> i < length ls \<and> l = ls ! i
         \<and> attempts (snd (exec (as0 @ Stop # as1) (new_runner ls, p))) =
             attempts (snd (exec as0 (new_runner ls, p))) @ [payload_of (strip l)]
         \<and> (wire (snd (exec (as0 @ Stop # as1) (new_runner ls, p))) =
               wire (snd (exec as0 (new_runner ls, p)))
             \<or> wire (snd (exec (as0 @ Stop # as1) (new_runner ls, p))) =
               wire (snd (exec as0 (new_runner ls, p))) @ [payload_of (strip l)])))
   \<and> (3 \<le> count_list as1 Tick \<longrightarrow>
        pc (fst (exec (as0 @ Stop # as1) (new_runner ls, p))) = Exited)
   \<and> (pc (fst (exec (as0 @ Stop # as1) (new_runner ls, p))) = Exited \<longrightarrow>
        emitted (fst (exec (as0 @ Stop # as1) (new_runner ls, p))) \<noteq> []
        \<and> last (emitted (fst (exec (as0 @ Stop # as1) (new_runner ls, p)))) = Finished
        \<and> count_list (emitted (fst (exec (as0 @ Stop # as1) (new_runner ls, p)))) Finished = 1)"
proof -
  let ?s0 = "exec as0 (new_runner ls, p)"
  let ?st = "(stop (fst ?s0), snd ?s0)"
  let ?s1 = "exec (as0 @ Stop # as1) (new_runner ls, p)"
  have s1: "?s1 = exec as1 ?st" by (simp add: exec_append)
  have nr: "\<not> running (fst ?st)" by (simp add: stop_def)
  have pcst: "pc (fst ?st) = pc (fst ?s0)" by (simp add: stop_def)
  have "in_program (fst (new_runner ls, p))"
    by (simp add: in_program_new)
  from in_program_exec[OF this, of as0]
  have inp: "in_program (fst ?s0)" "gcode_lines (fst ?s0) = ls"
    by (simp_all add: new_runner_def)
  have a: "snd ?s1 = snd ?s0
    \<or> (\<exists>i l. pc (fst ?s0) = Body i l \<and> i < length ls \<and> l = ls ! i
         \<and> attempts (snd ?s1) = attempts (snd ?s0) @ [payload_of (strip l)]
         \<and> (wire (snd ?s1) = wire (snd ?s0)
             \<or> wire (snd ?s1) = wire (snd ?s0) @ [payload_of (strip l)]))"
  proof (cases "\<exists>i l. pc (fst ?s0) = Body i l")
    case False
    then have "\<forall>i l. pc (fst ?st) \<noteq> Body i l" using pcst by simp
    from stopped_no_write[OF nr this, of as1] show ?thesis
      using s1 by simp
  next
    case True
    then obtain i l where b: "pc (fst ?s0) = Body i l" by blast
    then have il: "i < length ls" "l = ls ! i"
      using inp by (simp_all add: in_program_def)
    have "pc (fst ?st) = Body i l" using b pcst by simp
    from stopped_in_flight[OF nr this, of as1] show ?thesis
      using s1 b il by auto
  qed
  have b: "3 \<le> count_list as1 Tick \<longrightarrow> pc (fst ?s1) = Exited"
    using stopped_exits[OF nr, of as1] s1 by simp
  have "signals_ok (fst ?s1)"
    by (rule signals_ok_exec) (simp add: signals_ok_new)
  then have c: "pc (fst ?s1) = Exited \<longrightarrow>
        emitted (fst ?s1) \<noteq> [] \<and> last (emitted (fst ?s1)) = Finished
        \<and> count_list (emitted (fst ?s1)) Finished = 1"
    using signals_ok_last[of "fst ?s1"] signals_ok_count[of "fst ?s1"] by simp
  from a b c show ?thesis by blast
qed

theorem stop_request_effect_witness:
  "pc (fst (exec (replicate 3 Tick) (new_runner [''G28'', ''G1 X10''], fresh_port))) =
     Body 0 ''G28''
   \<and> (3::nat) \<le> count_list (replicate 3 Tick) Tick
   \<and> pc (fst (exec (replicate 3 Tick @ Stop # replicate 3 Tick)
               (new_runner [''G28'', ''G1 X10''], fresh_port))) = Exited
   \<and> wire (snd (exec (replicate 3 Tick @ Stop # replicate 3 Tick)
               (new_runner [''G28'', ''G1 X10''], fresh_port))) = [payload_of ''G28'']
   \<and> last (emitted (fst (exec (replicate 3 Tick @ Stop # replicate 3 Tick)
               (new_runner [''G28'', ''G1 X10''], fresh_port)))) = Finished
   \<and> count_list (emitted (fst (exec (replicate 3 Tick @ Stop # replicate 3 Tick)
               (new_runner [''G28'', ''G1 X10''], fresh_port)))) Finished = 1"
proof -
  let ?i = "(new_runner [''G28'', ''G1 X10''], fresh_port)"
  have a: "pc (fst (exec (replicate 3 Tick) ?i)) = Body 0 ''G28''"
    by (simp add: runner_eval eval_nat_numeral)
  have b: "(3::nat) \<le> count_list (replicate 3 Tick) Tick"
    by (simp add: eval_nat_numeral)
  have w: "wire (snd (exec (replicate 3 Tick @ Stop # replicate 3 Tick) ?i)) = [payload_of ''G28'']"
    by (simp add: runner_eval eval_nat_numeral)
  from stop_request_effect[of "replicate 3 Tick" "replicate 3 Tick" "[''G28'', ''G1 X10'']" fresh_port]
    a b w
  show ?thesis by simp
qed

section \<open>Splitting the editor text into program lines\<close>

lemma strip_Nil_iff: "strip s = [] \<longleftrightarrow> (\<forall>c\<in>set s. isspace c)"
proof -
  have "strip s = [] \<longleftrightarrow> (\<forall>c\<in>set (dropWhile isspace s). isspace c)"
    by (simp add: strip_def)
  also have "\<dots> \<longleftrightarrow> dropWhile isspace s = []"
  proof
    assume a: "\<forall>c\<in>set (dropWhile isspace s). isspace c"
    show "dropWhile isspace s = []"
    proof (rule ccontr)
      assume n: "dropWhile isspace s \<noteq> []"
      then have "\<not> isspace (hd (dropWhile isspace s))" by (rule hd_dropWhile)
      moreover have "hd (dropWhile isspace s) \<in> set (dropWhile isspace s)" using n by simp
      ultimately show False using a by blast
    qed
  next
    assume "dropWhile isspace s = []"
    then show "\<forall>c\<in>set (dropWhile isspace s). isspace c"
      by (metis empty_iff empty_set)
  qed
  also have "\<dots> \<longleftrightarrow> (\<forall>c\<in>set s. isspace c)"
    by simp
  finally show ?thesis .
qed

lemma isspace_newline: "isspace newline"
  by (simp add: isspace_def newline_def)

lemma split_nl_not_Nil: "split_nl s \<noteq> []"
  by (induction s) (auto split: list.splits)

lemma split_nl_covers:
  "c \<in> set s \<Longrightarrow> c \<noteq> newline \<Longrightarrow> \<exists>l\<in>set (split_nl s). c \<in> set l"
proof (induction s)
  case Nil
  then show ?case by simp
next
  case (Cons a s)
  obtain l ls where sp: "split_nl s = l # ls"
    using split_nl_not_Nil[of s] by (cases "split_nl s") simp_all
  show ?case
  proof (cases "a = newline")
    case True
    then have "c \<in> set s" using Cons.prems by auto
    from Cons.IH[OF this Cons.prems(2)] True show ?thesis by auto
  next
    case False
    show ?thesis
    proof (cases "c = a")
      case True
      then show ?thesis using False sp by simp
    next
      case c: False
      then have "c \<in> set s" using Cons.prems by auto
      from Cons.IH[OF this Cons.prems(2)] False sp show ?thesis by auto
    qed
  qed
qed

lemma program_lines_not_Nil:
  assumes "strip content \<noteq> []"
  shows "program_lines content \<noteq> []"
proof -
  from assms obtain c where c: "c \<in> set content" "\<not> isspace c"
    by (auto simp: strip_Nil_iff)
  then have "c \<noteq> newline" using isspace_newline by auto
  from split_nl_covers[OF c(1) this] obtain l where l: "l \<in> set (split_nl content)" "c \<in> set l"
    by blast
  then have "strip l \<noteq> []" using c(2) by (auto simp: strip_Nil_iff)
  with l(1) have "l \<in> set (filter (\<lambda>line. strip line \<noteq> []) (split_nl content))" by simp
  then have "filter (\<lambda>line. strip line \<noteq> []) (split_nl content) \<noteq> []"
    by (metis empty_iff list.set(1))
  then show ?thesis by (simp add: program_lines_def)
qed

lemma dropWhile_id: "xs = [] \<or> \<not> P (hd xs) \<Longrightarrow> dropWhile P xs = xs"
  by (cases xs) auto

lemma strip_idem: "strip (strip s) = strip s"
proof -
  let ?t = "dropWhile isspace s"
  let ?u = "rev (dropWhile isspace (rev ?t))"
  have u: "strip s = ?u" by (simp add: strip_def)
  have t: "?t = ?u @ rev (takeWhile isspace (rev ?t))"
    by (metis rev_append rev_rev_ident takeWhile_dropWhile_id)
  have hd_u: "?u = [] \<or> \<not> isspace (hd ?u)"
  proof (cases "?u = []")
    case False
    then have "hd ?u = hd ?t" using t by (metis hd_append2)
    moreover have "?t \<noteq> []"
    proof
      assume "?t = []"
      then have "?u = []" by (simp only: rev.simps dropWhile.simps)
      with False show False by blast
    qed
    ultimately show ?thesis using hd_dropWhile[of isspace s] by metis
  qed simp
  have 1: "dropWhile isspace ?u = ?u" using hd_u by (rule dropWhile_id)
  have "strip ?u = rev (dropWhile isspace (rev (dropWhile isspace ?u)))"
    by (simp only: strip_def)
  also have "\<dots> = ?u" by (simp only: 1 rev_rev_ident dropWhile_idem)
  finally show ?thesis using u by simp
qed

lemma program_lines_stripped:
  "l \<in> set (program_lines content) \<Longrightarrow> l \<noteq> [] \<and> strip l = l"
  by (auto simp: program_lines_def strip_idem)

lemma program_lines_restrip: "map strip (program_lines content) = program_lines content"
  by (simp add: program_lines_def strip_idem)

lemma check_connection_connected: "connected u \<Longrightarrow> check_connection u = (True, u)"
  by (simp add: check_connection_def)


section \<open>Starting a run\<close>

lemma run_gcode_cases:
  assumes "connected u" and "strip (gcode_editor u) \<noteq> []"
  shows "run_gcode u =
           (let u1 = u\<lparr>ui_gcode_lines := program_lines (gcode_editor u)\<rparr> in
            if (case gcode_runner u of None \<Rightarrow> False | Some r \<Rightarrow> isRunning r)
            then show_dialog (Warning Already_running) u1
            else u1\<lparr>gcode_runner := Some (new_runner (program_lines (gcode_editor u)))\<rparr>)"
  using assms program_lines_not_Nil[OF assms(2)]
  by (simp add: run_gcode_def check_connection_connected Let_def)

text \<open>
  Claim C4, as stated, is refuted: the editor text \<open>G28\<close>, blank line, \<open>G1 X10\<close> has three
  typed lines, but the run that \<^verbatim>\<open>run_gcode\<close> starts has two lines, a total of 2 and
  two progress signals; the blank line is not counted.
\<close>

theorem blank_line_counterexample:
  "split_nl (''G28'' @ [newline, newline] @ ''G1 X10'') = [''G28'', [], ''G1 X10'']
   \<and> gcode_runner (run_gcode (connected_ui\<lparr>gcode_editor := ''G28'' @ [newline, newline] @ ''G1 X10''\<rparr>)) =
       Some (new_runner [''G28'', ''G1 X10''])
   \<and> run (new_runner [''G28'', ''G1 X10''], fresh_port) =
       Some (\<lparr>gcode_lines = [''G28'', ''G1 X10''], running = True, paused = False, pc = Exited,
              emitted = [Progress 1 2, Progress 2 2, Finished]\<rparr>,
             fresh_port\<lparr>attempts := [payload_of ''G28'', payload_of ''G1 X10''],
                         wire := [payload_of ''G28'', payload_of ''G1 X10'']\<rparr>)"
proof -
  let ?c = "''G28'' @ [newline, newline] @ ''G1 X10''"
  let ?u = "connected_ui\<lparr>gcode_editor := ?c\<rparr>"
  have sp: "split_nl ?c = [''G28'', [], ''G1 X10'']"
    by (simp add: newline_def)
  have pl: "program_lines ?c = [''G28'', ''G1 X10'']"
    unfolding program_lines_def sp by (simp add: strip_def isspace_def)
  have con: "connected ?u" by (simp add: connected_def connected_ui_def fresh_port_def)
  have ne: "strip (gcode_editor ?u) \<noteq> []"
    by (simp add: strip_Nil_iff isspace_def)
  have nr: "gcode_runner ?u = None" by (simp add: connected_ui_def initial_ui_def)
  have a: "gcode_runner (run_gcode ?u) = Some (new_runner [''G28'', ''G1 X10''])"
    using run_gcode_cases[OF con ne] nr pl by (simp add: Let_def)
  have op: "is_open fresh_port" "faults fresh_port = []" by (simp_all add: fresh_port_def)
  have st: "strip ''G28'' = ''G28''" "strip ''G1 X10'' = ''G1 X10''"
    by (simp_all add: strip_def isspace_def)
  have sk: "\<not> skipped ''G28''" "\<not> skipped ''G1 X10''"
    by (simp_all add: skipped_def startswith_def)
  have em: "attempts fresh_port = []" "wire fresh_port = []"
    by (simp_all add: fresh_port_def)
  have b: "run (new_runner [''G28'', ''G1 X10''], fresh_port) =
       Some (\<lparr>gcode_lines = [''G28'', ''G1 X10''], running = True, paused = False, pc = Exited,
              emitted = [Progress 1 2, Progress 2 2, Finished]\<rparr>,
             fresh_port\<lparr>attempts := [payload_of ''G28'', payload_of ''G1 X10''],
                         wire := [payload_of ''G28'', payload_of ''G1 X10'']\<rparr>)"
    by (simp add: run_new_runner send_all_clean[OF op] st sk em eval_nat_numeral)
  from sp a b show ?thesis by blast
qed

text \<open>
  Claim C4, amended. For a program typed into the editor of a connected window with no
  active run, blank lines are filtered out before the run starts, by the same expression
  that file loading uses: the run's lines are the stripped non-blank lines of the text, so
  a blank line adds nothing to the total, gets no progress signal and no transmission.
  Left alone on a port whose writes succeed, the run emits one progress signal per
  non-blank line, \<open>(1, N)\<close> to \<open>(N, N)\<close> with \<open>N\<close> the number of non-blank lines, and
  transmits the lines that are not comments.
\<close>

theorem run_gcode_filters_blank_lines:
  assumes "connected u" and "strip (gcode_editor u) \<noteq> []"
    and "(case gcode_runner u of None \<Rightarrow> True | Some r \<Rightarrow> \<not> isRunning r)"
    and "is_open p" and "faults p = []"
  shows "gcode_runner (run_gcode u) = Some (new_runner (program_lines (gcode_editor u)))
       \<and> program_lines (gcode_editor u) = ui_gcode_lines (load_gcode_file (gcode_editor u) u)
       \<and> length (program_lines (gcode_editor u)) =
           length (filter (\<lambda>l. strip l \<noteq> []) (split_nl (gcode_editor u)))
       \<and> (\<forall>l\<in>set (program_lines (gcode_editor u)). l \<noteq> [] \<and> strip l = l)
       \<and> (\<exists>r' p'. run (new_runner (program_lines (gcode_editor u)), p) = Some (r', p')
             \<and> emitted r' =
                 map (\<lambda>j. Progress j (length (program_lines (gcode_editor u))))
                   [1 ..< Suc (length (program_lines (gcode_editor u)))] @ [Finished]
             \<and> wire p' =
                 wire p @ map payload_of
                   (filter (\<lambda>l. \<not> skipped l) (program_lines (gcode_editor u))))"
proof -
  let ?pl = "program_lines (gcode_editor u)"
  have a: "gcode_runner (run_gcode u) = Some (new_runner ?pl)"
    using run_gcode_cases[OF assms(1,2)] assms(3)
    by (cases "gcode_runner u") (simp_all add: Let_def)
  have b: "?pl = ui_gcode_lines (load_gcode_file (gcode_editor u) u)"
    by (simp add: load_gcode_file_def show_dialog_def Let_def)
  have c: "length ?pl = length (filter (\<lambda>l. strip l \<noteq> []) (split_nl (gcode_editor u)))"
    by (simp add: program_lines_def)
  have d: "\<forall>l\<in>set ?pl. l \<noteq> [] \<and> strip l = l"
    using program_lines_stripped by blast
  have e: "\<exists>r' p'. run (new_runner ?pl, p) = Some (r', p')
             \<and> emitted r' = map (\<lambda>j. Progress j (length ?pl)) [1 ..< Suc (length ?pl)] @ [Finished]
             \<and> wire p' = wire p @ map payload_of (filter (\<lambda>l. \<not> skipped l) ?pl)"
    by (simp add: run_new_runner send_all_clean[OF assms(4,5)] program_lines_restrip)
  from a b c d e show ?thesis by blast
qed

theorem run_gcode_filters_blank_lines_witness:
  "connected (connected_ui\<lparr>gcode_editor := ''G28'' @ [newline, newline] @ ''; home''\<rparr>)
   \<and> strip (gcode_editor (connected_ui\<lparr>gcode_editor := ''G28'' @ [newline, newline] @ ''; home''\<rparr>)) \<noteq> []
   \<and> gcode_runner (connected_ui\<lparr>gcode_editor := ''G28'' @ [newline, newline] @ ''; home''\<rparr>) = None
   \<and> is_open fresh_port \<and> faults fresh_port = []
   \<and> program_lines (''G28'' @ [newline, newline] @ ''; home'') = [''G28'', ''; home'']
   \<and> gcode_runner (run_gcode (connected_ui\<lparr>gcode_editor := ''G28'' @ [newline, newline] @ ''; home''\<rparr>)) =
       Some (new_runner [''G28'', ''; home''])
   \<and> (\<exists>r' p'. run (new_runner [''G28'', ''; home''], fresh_port) = Some (r', p')
         \<and> emitted r' = [Progress 1 2, Progress 2 2, Finished]
         \<and> wire p' = [payload_of ''G28''])"
proof -
  let ?c = "''G28'' @ [newline, newline] @ ''; home''"
  let ?u = "connected_ui\<lparr>gcode_editor := ?c\<rparr>"
  have sp: "split_nl ?c = [''G28'', [], ''; home'']"
    by (simp add: newline_def)
  have pl: "program_lines ?c = [''G28'', ''; home'']"
    unfolding program_lines_def sp by (simp add: strip_def isspace_def)
  have con: "connected ?u" by (simp add: connected_def connected_ui_def fresh_port_def)
  have ne: "strip (gcode_editor ?u) \<noteq> []"
    by (simp add: strip_Nil_iff isspace_def)
  have nr: "gcode_runner ?u = None" by (simp add: connected_ui_def initial_ui_def)
  have nr': "(case gcode_runner ?u of None \<Rightarrow> True | Some r \<Rightarrow> \<not> isRunning r)"
    by (simp add: connected_ui_def initial_ui_def)
  have op: "is_open fresh_port" "faults fresh_port = []" by (simp_all add: fresh_port_def)
  have sk: "\<not> skipped ''G28''" "skipped ''; home''"
    by (simp_all add: skipped_def startswith_def)
  have w: "wire fresh_port = []" by (simp add: fresh_port_def)
  have ed: "gcode_editor ?u = ?c" by simp
  note inst = run_gcode_filters_blank_lines[OF con ne nr' op, unfolded ed pl]
  from inst have a: "gcode_runner (run_gcode ?u) = Some (new_runner [''G28'', ''; home''])"
    by (rule conjunct1)
  from inst obtain r' p' where
    r: "run (new_runner [''G28'', ''; home''], fresh_port) = Some (r', p')"
    and e: "emitted r' = map (\<lambda>j. Progress j (length [''G28'', ''; home'']))
             [1 ..< Suc (length [''G28'', ''; home''])] @ [Finished]"
    and wi: "wire p' = wire fresh_port @ map payload_of (filter (\<lambda>l. \<not> skipped l) [''G28'', ''; home''])"
    by blast
  have e': "emitted r' = [Progress 1 2, Progress 2 2, Finished]"
    unfolding e by (simp add: upt_conv_Cons)
  have w': "wire p' = [payload_of ''G28'']"
    unfolding wi by (simp add: sk w)
  have ex: "\<exists>r' p'. run (new_runner [''G28'', ''; home''], fresh_port) = Some (r', p')
         \<and> emitted r' = [Progress 1 2, Progress 2 2, Finished]
         \<and> wire p' = [payload_of ''G28'']"
    using r e' w' by blast
  from con ne nr op pl a ex show ?thesis by blast
qed

section \<open>A start request during a run\<close>

text \<open>
  Whatever the schedule, a thread only ever writes lines of its own program, stripped and
  followed by a line feed.
\<close>

lemma step_writes_own_line:
  assumes "in_program (fst s)"
  shows "snd (runner_step s) = snd s
       \<or> (\<exists>i. i < length (gcode_lines (fst s))
              \<and> attempts (snd (runner_step s)) =
                  attempts (snd s) @ [strip (gcode_lines (fst s) ! i) @ [CHR 0x0A]]
              \<and> (wire (snd (runner_step s)) = wire (snd s)
                  \<or> wire (snd (runner_step s)) =
                      wire (snd s) @ [strip (gcode_lines (fst s) ! i) @ [CHR 0x0A]]))"
proof -
  obtain r p where s: "s = (r, p)" by (cases s)
  show ?thesis
  proof (cases "pc r")
    case (Body i l)
    with assms s have il: "i < length (gcode_lines r)" "gcode_lines r ! i = l"
      by (simp_all add: in_program_def)
    have "snd (runner_step (r, p)) = p
        \<or> (attempts (snd (runner_step (r, p))) = attempts p @ [strip l @ [CHR 0x0A]]
            \<and> (wire (snd (runner_step (r, p))) = wire p
                \<or> wire (snd (runner_step (r, p))) = wire p @ [strip l @ [CHR 0x0A]]))"
      using Body
      by (auto simp: runner_step_def emit_def Let_def serial_write_def payload_nl
            split: list.splits prod.splits option.splits if_splits)
    with il s show ?thesis by auto
  qed (auto simp: s runner_step_def emit_def Let_def split: list.splits)
qed

lemma exec_writes_own_lines:
  assumes "in_program (fst s)"
  shows "\<exists>ws vs. attempts (snd (exec as s)) = attempts (snd s) @ ws
              \<and> wire (snd (exec as s)) = wire (snd s) @ vs
              \<and> set ws \<subseteq> (\<lambda>l. strip l @ [CHR 0x0A]) ` set (gcode_lines (fst s))
              \<and> set vs \<subseteq> (\<lambda>l. strip l @ [CHR 0x0A]) ` set (gcode_lines (fst s))"
  using assms
proof (induction as arbitrary: s)
  case Nil
  show ?case by simp
next
  case (Cons a as)
  let ?F = "\<lambda>l. strip l @ [CHR 0x0A]"
  let ?s1 = "act a s"
  from in_program_act[OF Cons.prems, of a]
  have ip: "in_program (fst ?s1)" and gl: "gcode_lines (fst ?s1) = gcode_lines (fst s)"
    by simp_all
  from Cons.IH[OF ip] obtain ws vs where
    w: "attempts (snd (exec as ?s1)) = attempts (snd ?s1) @ ws"
    and v: "wire (snd (exec as ?s1)) = wire (snd ?s1) @ vs"
    and sw: "set ws \<subseteq> ?F ` set (gcode_lines (fst s))"
    and sv: "set vs \<subseteq> ?F ` set (gcode_lines (fst s))"
    unfolding gl by blast
  have one: "\<exists>w1 v1. attempts (snd ?s1) = attempts (snd s) @ w1
                   \<and> wire (snd ?s1) = wire (snd s) @ v1
                   \<and> set w1 \<subseteq> ?F ` set (gcode_lines (fst s))
                   \<and> set v1 \<subseteq> ?F ` set (gcode_lines (fst s))"
  proof (cases "a = Tick")
    case False
    from act_not_Tick[OF False, of s] have "snd ?s1 = snd s" by simp
    then have "attempts (snd ?s1) = attempts (snd s) @ [] \<and> wire (snd ?s1) = wire (snd s) @ []
        \<and> set [] \<subseteq> ?F ` set (gcode_lines (fst s)) \<and> set [] \<subseteq> ?F ` set (gcode_lines (fst s))"
      by simp
    then show ?thesis by blast
  next
    case True
    from step_writes_own_line[OF Cons.prems] consider
      (same) "snd (runner_step s) = snd s"
      | (sent) i where "i < length (gcode_lines (fst s))"
          "attempts (snd (runner_step s)) = attempts (snd s) @ [?F (gcode_lines (fst s) ! i)]"
          "wire (snd (runner_step s)) = wire (snd s)
           \<or> wire (snd (runner_step s)) = wire (snd s) @ [?F (gcode_lines (fst s) ! i)]"
      by blast
    then show ?thesis
    proof cases
      case same
      then have "attempts (snd ?s1) = attempts (snd s) @ [] \<and> wire (snd ?s1) = wire (snd s) @ []
        \<and> set [] \<subseteq> ?F ` set (gcode_lines (fst s)) \<and> set [] \<subseteq> ?F ` set (gcode_lines (fst s))"
        using True by simp
      then show ?thesis by blast
    next
      case sent
      let ?w = "?F (gcode_lines (fst s) ! i)"
      have mem: "set [?w] \<subseteq> ?F ` set (gcode_lines (fst s))"
        using sent(1) by simp
      from sent(3) show ?thesis
      proof
        assume "wire (snd (runner_step s)) = wire (snd s)"
        then have "attempts (snd ?s1) = attempts (snd s) @ [?w]
          \<and> wire (snd ?s1) = wire (snd s) @ []
          \<and> set [?w] \<subseteq> ?F ` set (gcode_lines (fst s))
          \<and> set [] \<subseteq> ?F ` set (gcode_lines (fst s))"
          using True sent(2) mem by simp
        then show ?thesis by blast
      next
        assume "wire (snd (runner_step s)) = wire (snd s) @ [?w]"
        then have "attempts (snd ?s1) = attempts (snd s) @ [?w]
          \<and> wire (snd ?s1) = wire (snd s) @ [?w]
          \<and> set [?w] \<subseteq> ?F ` set (gcode_lines (fst s))
          \<and> set [?w] \<subseteq> ?F ` set (gcode_lines (fst s))"
          using True sent(2) mem by simp
        then show ?thesis by blast
      qed
    qed
  qed
  then obtain w1 v1 where
    w1: "attempts (snd ?s1) = attempts (snd s) @ w1"
    and v1: "wire (snd ?s1) = wire (snd s) @ v1"
    and sw1: "set w1 \<subseteq> ?F ` set (gcode_lines (fst s))"
    and sv1: "set v1 \<subseteq> ?F ` set (gcode_lines (fst s))"
    by blast
  have "attempts (snd (exec (a # as) s)) = attempts (snd s) @ (w1 @ ws)
      \<and> wire (snd (exec (a # as) s)) = wire (snd s) @ (v1 @ vs)
      \<and> set (w1 @ ws) \<subseteq> ?F ` set (gcode_lines (fst s))
      \<and> set (v1 @ vs) \<subseteq> ?F ` set (gcode_lines (fst s))"
    using w v w1 v1 sw sv sw1 sv1 by simp
  then show ?case by blast
qed

text \<open>
  Claim C7, as stated, is refuted: with a run in progress, a start request made while the
  editor is empty is rejected with the editor-empty warning, and one made after the port
  was lost with the not-connected warning; neither is the already-running warning.
\<close>

theorem second_run_warning_counterexample:
  "isRunning (fst (exec [Tick] (new_runner [''G28''], fresh_port)))
   \<and> dialogs (run_gcode (connected_ui\<lparr>gcode_editor := [],
        gcode_runner := Some (fst (exec [Tick] (new_runner [''G28''], fresh_port)))\<rparr>)) =
       [Warning Editor_empty]
   \<and> dialogs (run_gcode (initial_ui\<lparr>gcode_editor := ''G1 X5'',
        gcode_runner := Some (fst (exec [Tick] (new_runner [''G28''], fresh_port)))\<rparr>)) =
       [Warning Not_connected]
   \<and> Warning Editor_empty \<noteq> Warning Already_running
   \<and> Warning Not_connected \<noteq> Warning Already_running"
  by (simp add: isRunning_def runner_eval run_gcode_def check_connection_def connected_def
        connected_ui_def initial_ui_def show_dialog_def)

text \<open>
  Claim C7, amended. Let the window hold a runner that was started on the program \<open>ls\<close>,
  has got to any point of any execution, and whose thread has not returned (it is running
  or paused). Then a start request is rejected: the runner stays as it is and no new one
  is created, and exactly one warning is shown, which is the not-connected warning when
  the window is not connected, the editor-empty warning when the editor is blank, and the
  already-running warning otherwise. The only runner there is still runs the program
  \<open>ls\<close>: however its execution goes on, on whatever port, every write call it makes and
  every line it puts on the wire is a line of \<open>ls\<close>, stripped and followed by a line feed,
  so the lines of the rejected request are never sent.
\<close>

theorem run_gcode_rejects_second_run:
  assumes "gcode_runner u = Some r" and "isRunning r"
    and "r = fst (exec as0 (new_runner ls, p0))"
  shows "gcode_runner (run_gcode u) = Some r
       \<and> dialogs (run_gcode u) =
           dialogs u @ [Warning (if \<not> connected u then Not_connected
                                 else if strip (gcode_editor u) = [] then Editor_empty
                                 else Already_running)]
       \<and> gcode_lines r = ls
       \<and> (\<exists>ws vs. attempts (snd (exec as (r, p))) = attempts p @ ws
                \<and> wire (snd (exec as (r, p))) = wire p @ vs
                \<and> set ws \<subseteq> (\<lambda>l. strip l @ [CHR 0x0A]) ` set ls
                \<and> set vs \<subseteq> (\<lambda>l. strip l @ [CHR 0x0A]) ` set ls)"
proof -
  have ip0: "in_program (fst (new_runner ls, p0))" by (simp add: in_program_new)
  from in_program_exec[OF ip0, of as0] assms(3)
  have ip: "in_program r" and gl: "gcode_lines r = ls"
    by (simp_all add: new_runner_def)
  from exec_writes_own_lines[of "(r, p)" as] ip gl
  have wr: "\<exists>ws vs. attempts (snd (exec as (r, p))) = attempts p @ ws
                \<and> wire (snd (exec as (r, p))) = wire p @ vs
                \<and> set ws \<subseteq> (\<lambda>l. strip l @ [CHR 0x0A]) ` set ls
                \<and> set vs \<subseteq> (\<lambda>l. strip l @ [CHR 0x0A]) ` set ls"
    by simp
  have ui: "gcode_runner (run_gcode u) = Some r
       \<and> dialogs (run_gcode u) =
           dialogs u @ [Warning (if \<not> connected u then Not_connected
                                 else if strip (gcode_editor u) = [] then Editor_empty
                                 else Already_running)]"
  proof (cases "connected u")
    case False
    then show ?thesis
      using assms(1) by (simp add: run_gcode_def check_connection_def show_dialog_def)
  next
    case con: True
    show ?thesis
    proof (cases "strip (gcode_editor u) = []")
      case True
      then show ?thesis
        using assms(1) con
        by (simp add: run_gcode_def check_connection_connected show_dialog_def Let_def)
    next
      case False
      from run_gcode_cases[OF con False] assms(1,2)
      have "run_gcode u =
        show_dialog (Warning Already_running)
          (u\<lparr>ui_gcode_lines := program_lines (gcode_editor u)\<rparr>)"
        by (simp add: Let_def)
      then show ?thesis using assms(1) con False by (simp add: show_dialog_def)
    qed
  qed
  from ui gl wr show ?thesis by simp
qed

theorem run_gcode_rejects_second_run_witness:
  "gcode_runner (connected_ui\<lparr>gcode_editor := ''G1 X5'',
       gcode_runner := Some (fst (exec [Tick, Pause, Tick] (new_runner [''G28''], fresh_port)))\<rparr>) =
     Some (fst (exec [Tick, Pause, Tick] (new_runner [''G28''], fresh_port)))
   \<and> paused (fst (exec [Tick, Pause, Tick] (new_runner [''G28''], fresh_port)))
   \<and> isRunning (fst (exec [Tick, Pause, Tick] (new_runner [''G28''], fresh_port)))
   \<and> gcode_runner (run_gcode (connected_ui\<lparr>gcode_editor := ''G1 X5'',
       gcode_runner := Some (fst (exec [Tick, Pause, Tick] (new_runner [''G28''], fresh_port)))\<rparr>)) =
     Some (fst (exec [Tick, Pause, Tick] (new_runner [''G28''], fresh_port)))
   \<and> dialogs (run_gcode (connected_ui\<lparr>gcode_editor := ''G1 X5'',
       gcode_runner := Some (fst (exec [Tick, Pause, Tick] (new_runner [''G28''], fresh_port)))\<rparr>)) =
     [Warning Already_running]
   \<and> attempts (snd (exec [Resume, Tick, Tick, Tick, Tick, Tick]
       (fst (exec [Tick, Pause, Tick] (new_runner [''G28''], fresh_port)), fresh_port))) =
     [''G28'' @ [CHR 0x0A]]
   \<and> (\<exists>ws. attempts (snd (exec [Resume, Tick, Tick, Tick, Tick, Tick]
       (fst (exec [Tick, Pause, Tick] (new_runner [''G28''], fresh_port)), fresh_port))) =
         attempts fresh_port @ ws
       \<and> set ws \<subseteq> (\<lambda>l. strip l @ [CHR 0x0A]) ` set [''G28''])"
proof -
  let ?r = "fst (exec [Tick, Pause, Tick] (new_runner [''G28''], fresh_port))"
  let ?u = "connected_ui\<lparr>gcode_editor := ''G1 X5'', gcode_runner := Some ?r\<rparr>"
  have g: "gcode_runner ?u = Some ?r" by simp
  have i: "isRunning ?r" and p: "paused ?r"
    by (simp_all add: isRunning_def runner_eval)
  have con: "connected ?u" by (simp add: connected_def connected_ui_def fresh_port_def)
  have ne: "strip (gcode_editor ?u) \<noteq> []"
    by (simp add: strip_Nil_iff isspace_def)
  have d: "dialogs ?u = []" by (simp add: connected_ui_def initial_ui_def)
  have ev: "attempts (snd (exec [Resume, Tick, Tick, Tick, Tick, Tick] (?r, fresh_port))) =
      [''G28'' @ [CHR 0x0A]]"
    by (simp add: runner_eval newline_def)
  note inst = run_gcode_rejects_second_run[OF g i refl,
      of "[Resume, Tick, Tick, Tick, Tick, Tick]" fresh_port]
  note a = inst[THEN conjunct1]
  from inst[THEN conjunct2, THEN conjunct1] con ne d
  have b: "dialogs (run_gcode ?u) = [Warning Already_running]" by simp
  from inst[THEN conjunct2, THEN conjunct2, THEN conjunct2] obtain ws where
    "attempts (snd (exec [Resume, Tick, Tick, Tick, Tick, Tick] (?r, fresh_port))) =
       attempts fresh_port @ ws"
    "set ws \<subseteq> (\<lambda>l. strip l @ [CHR 0x0A]) ` set [''G28'']"
    by (elim exE conjE) (rule that)
  then have c: "\<exists>ws. attempts (snd (exec [Resume, Tick, Tick, Tick, Tick, Tick]
           (?r, fresh_port))) = attempts fresh_port @ ws
       \<and> set ws \<subseteq> (\<lambda>l. strip l @ [CHR 0x0A]) ` set [''G28'']"
    by (intro exI[of _ ws] conjI)
  from g p i a b ev c show ?thesis by (intro conjI)
qed

section \<open>The displayed progress percentage\<close>

lemma bitlen_bounds: "0 < n \<Longrightarrow> 2 ^ (bitlen n - 1) \<le> n \<and> n < 2 ^ bitlen n"
proof (induction n rule: bitlen.induct)
  case (1 n)
  show ?case
  proof (cases "n div 2 = 0")
    case True
    with 1(2) have "n = 1" by (simp add: div_eq_0_iff) 
    then show ?thesis by (simp add: bitlen.simps)
  next
    case False
    then have pos: "0 < n div 2" by simp
    from 1(1)[OF _ pos] 1(2)
    have ih: "2 ^ (bitlen (n div 2) - 1) \<le> n div 2" "n div 2 < 2 ^ bitlen (n div 2)"
      by simp_all
    have bl: "bitlen n = Suc (bitlen (n div 2))"
      using 1(2) by (subst bitlen.simps) simp
    have bp: "0 < bitlen (n div 2)"
      using pos by (subst bitlen.simps) simp
    have "2 ^ (bitlen n - 1) = 2 * 2 ^ (bitlen (n div 2) - 1)"
      using bl bp by (cases "bitlen (n div 2)") simp_all
    also have "\<dots> \<le> 2 * (n div 2)" using ih(1) by simp
    also have "\<dots> \<le> n" by simp
    finally have lo: "2 ^ (bitlen n - 1) \<le> n" .
    have "n < 2 * (n div 2) + 2" by arith
    also have "\<dots> \<le> 2 * 2 ^ bitlen (n div 2)" using ih(2) by simp
    finally have "n < 2 ^ bitlen n" using bl by simp
    with lo show ?thesis by simp
  qed
qed


lemma round_double_shape:
  assumes "0 < a" and "0 < b"
  shows "\<exists>num den m s k.
           round_double a b = (m * 2 ^ s, 2 ^ k) \<and> 0 < den \<and> 2 ^ 52 * den \<le> num
           \<and> 2 * \<bar>int m * int den - int num\<bar> \<le> int den
           \<and> real a / real b = (real num / real den) * (2 ^ s / 2 ^ k)"
proof -
  define k where "k = (53 + bitlen b) - bitlen a"
  define j where "j = bitlen a - (53 + bitlen b)"
  define num where "num = a * 2 ^ k"
  define den0 where "den0 = b * 2 ^ j"
  define h :: nat where "h = (if 2 ^ 53 * den0 \<le> num then 1 else 0)"
  define den where "den = den0 * 2 ^ h"
  define q where "q = num div den"
  define r where "r = num mod den"
  define m where "m = (if 2 * r < den \<or> (2 * r = den \<and> even q) then q else q + 1)"
  have rd: "round_double a b = (m * 2 ^ (h + j), 2 ^ k)"
    by (simp add: round_double_def Let_def k_def j_def num_def den0_def h_def den_def q_def
        r_def m_def)
  have den0: "0 < den0" using assms(2) by (simp add: den0_def)
  then have den: "0 < den" by (simp add: den_def)
  have kj: "bitlen a + k = 53 + bitlen b + j"
    by (simp add: k_def j_def)
  have big: "2 ^ 52 * den \<le> num"
  proof (cases "2 ^ 53 * den0 \<le> num")
    case True
    then show ?thesis by (simp add: den_def h_def)
  next
    case False
    have ba: "2 ^ (bitlen a - 1) \<le> a" and bb: "b < 2 ^ bitlen b"
      using bitlen_bounds assms by blast+
    have pa: "0 < bitlen a" using assms(1) by (subst bitlen.simps) simp
    have "2 ^ 52 * den0 = 2 ^ 52 * 2 ^ j * b" by (simp add: den0_def)
    also have "\<dots> \<le> 2 ^ 52 * 2 ^ j * 2 ^ bitlen b"
      using bb by (intro mult_left_mono) simp_all
    also have "\<dots> = 2 ^ (52 + j + bitlen b)" by (simp add: power_add)
    also have "52 + j + bitlen b = (bitlen a - 1) + k" using kj pa by simp
    also have "2 ^ ((bitlen a - 1) + k) = 2 ^ (bitlen a - 1) * (2::nat) ^ k"
      by (simp add: power_add)
    also have "\<dots> \<le> a * 2 ^ k" using ba by (intro mult_right_mono) simp_all
    finally show ?thesis using False by (simp add: den_def h_def num_def)
  qed
  have split: "num = q * den + r" by (simp add: q_def r_def)
  have rlt: "r < den" using den by (simp add: r_def)
  have near: "2 * \<bar>int m * int den - int num\<bar> \<le> int den"
  proof (cases "2 * r < den \<or> (2 * r = den \<and> even q)")
    case True
    then have "m = q" by (simp add: m_def)
    then have "int m * int den - int num = - int r"
      using split by simp
    then show ?thesis using True by auto
  next
    case False
    then have "m = q + 1" by (simp add: m_def)
    then have "int m * int den - int num = int den - int r"
      using split by (simp add: algebra_simps)
    then show ?thesis using False rlt by auto
  qed
  have "real num / real den * (2 ^ (h + j) / 2 ^ k) = real a / real b"
    using assms by (simp add: num_def den_def den0_def power_add field_simps)
  with rd den big near show ?thesis by metis
qed


lemma round_double_error:
  assumes "0 < a" and "0 < b"
  shows "\<bar>frac_value (round_double a b) - real a / real b\<bar> \<le> (real a / real b) / 2 ^ 53"
    and "0 < fst (round_double a b)" and "0 < snd (round_double a b)"
proof -
  from round_double_shape[OF assms] obtain num den m s k where
    rd: "round_double a b = (m * 2 ^ s, 2 ^ k)" and den: "0 < den"
    and big: "2 ^ 52 * den \<le> num"
    and near: "2 * \<bar>int m * int den - int num\<bar> \<le> int den"
    and ab: "real a / real b = (real num / real den) * (2 ^ s / 2 ^ k)"
    by blast
  define u :: real where "u = 2 ^ s / 2 ^ k"
  define x :: real where "x = real num / real den"
  have u: "0 < u" by (simp add: u_def)
  have fv: "frac_value (round_double a b) = real m * u"
    by (simp add: rd frac_value_def u_def)
  have abx: "real a / real b = x * u" using ab by (simp add: x_def u_def)
  have xbig: "2 ^ 52 \<le> x"
  proof -
    have "real (2 ^ 52 * den) \<le> real num" using big by (rule of_nat_mono)
    then show ?thesis using den by (simp add: x_def field_simps)
  qed
  have mx: "\<bar>real m - x\<bar> \<le> 1 / 2"
  proof -
    have "real_of_int (2 * \<bar>int m * int den - int num\<bar>) \<le> real_of_int (int den)"
      using near by (rule of_int_le_iff[THEN iffD2])
    then have n: "2 * \<bar>real m * real den - real num\<bar> \<le> real den" by simp
    have dpos: "0 < real den" using den by simp
    have "x * real den = real num" using den by (simp add: x_def)
    then have "real m * real den - real num = (real m - x) * real den"
      by (simp add: left_diff_distrib)
    then have "\<bar>real m * real den - real num\<bar> = \<bar>real m - x\<bar> * real den"
      using dpos by (simp add: abs_mult)
    with n have "(2 * \<bar>real m - x\<bar>) * real den \<le> 1 * real den" by simp
    then have "2 * \<bar>real m - x\<bar> \<le> 1" using dpos by (rule mult_right_le_imp_le)
    then show ?thesis by simp
  qed
  have "\<bar>frac_value (round_double a b) - real a / real b\<bar> = \<bar>real m - x\<bar> * u"
    using u by (simp add: fv abx abs_mult left_diff_distrib[symmetric])
  also have "\<dots> \<le> (1 / 2) * u" using mx u by (intro mult_right_mono) simp_all
  also have "\<dots> = 2 ^ 52 * u / 2 ^ 53" by simp
  also have "\<dots> \<le> x * u / 2 ^ 53"
    using xbig u by (intro divide_right_mono mult_right_mono) simp_all
  finally show "\<bar>frac_value (round_double a b) - real a / real b\<bar> \<le> (real a / real b) / 2 ^ 53"
    by (simp add: abx)
  have "x - real m \<le> 1 / 2" using mx by (simp only: abs_le_iff minus_diff_eq)
  moreover have "(1::real) \<le> 2 ^ 52" by simp
  ultimately have "0 < real m" using xbig by linarith
  then show "0 < fst (round_double a b)" by (simp add: rd)
  show "0 < snd (round_double a b)" by (simp add: rd)
qed


lemma progress_percent_real:
  assumes "1 \<le> c" and "c \<le> t"
  shows "\<exists>z::real. progress_percent c t = \<lfloor>z\<rfloor>
           \<and> \<bar>z - 100 * (real c / real t)\<bar> \<le> 300 * (1 / 2 ^ 53)"
proof -
  obtain qn qd where q: "round_double c t = (qn, qd)" by (cases "round_double c t")
  obtain pn pd where p: "round_double (qn * 100) qd = (pn, pd)"
    by (cases "round_double (qn * 100) qd")
  have c: "0 < c" and t: "0 < t" using assms by simp_all
  define x :: real where "x = real c / real t"
  define y :: real where "y = real qn / real qd"
  define z :: real where "z = real pn / real pd"
  define eps :: real where "eps = 1 / 2 ^ 53"
  have eps: "0 < eps" "eps \<le> 1" by (simp_all add: eps_def)
  have de: "w / 2 ^ 53 = w * eps" for w by (simp add: eps_def)
  have x: "0 < x" "x \<le> 1" using assms c t by (simp_all add: x_def)
  have fy: "frac_value (round_double c t) = y" by (simp add: q frac_value_def y_def)
  have fz: "frac_value (round_double (qn * 100) qd) = z" by (simp add: p frac_value_def z_def)
  have r2: "real (qn * 100) / real qd = 100 * y" by (simp add: y_def)
  note E1 = round_double_error[OF c t]
  have e1: "\<bar>y - x\<bar> \<le> x * eps"
    using E1(1) unfolding fy de x_def[symmetric] .
  have qn: "0 < qn" and qd: "0 < qd" using E1(2,3) by (simp_all add: q)
  have qn100: "0 < qn * 100" using qn by simp
  note E2 = round_double_error[OF qn100 qd]
  have e2: "\<bar>z - 100 * y\<bar> \<le> (100 * y) * eps"
    using E2(1) unfolding fz r2 de .
  have pd: "0 < pd" using E2(3) by (simp add: p)
  have "x * eps \<le> 1 * eps" using x(2) eps(1) by (intro mult_right_mono) simp_all
  with e1 have d1: "\<bar>y - x\<bar> \<le> eps" by linarith
  then have y2: "y \<le> 2" using x(2) eps(2) by linarith
  have "(100 * y) * eps \<le> (100 * 2) * eps"
    using y2 eps(1) by (intro mult_right_mono) simp_all
  with e2 have d2: "\<bar>z - 100 * y\<bar> \<le> 200 * eps" by linarith
  have "\<bar>z - 100 * x\<bar> \<le> 300 * eps" using d1 d2 by linarith
  then have "\<bar>z - 100 * (real c / real t)\<bar> \<le> 300 * (1 / 2 ^ 53)"
    unfolding x_def eps_def .
  moreover have "progress_percent c t = \<lfloor>z\<rfloor>"
    by (simp add: progress_percent_def q p z_def floor_divide_of_nat_eq)
  ultimately show ?thesis by blast
qed

lemma progress_percent_bounds:
  assumes "1 \<le> c" and "c \<le> t" and "t < 2 ^ 44"
  shows "int ((100 * c) div t) - 1 \<le> progress_percent c t
       \<and> progress_percent c t \<le> int ((100 * c) div t)"
proof -
  define e :: real where "e = 300 * (1 / 2 ^ 53)"
  define X :: real where "X = 100 * (real c / real t)"
  from progress_percent_real[OF assms(1,2)] obtain z :: real where
    pz: "progress_percent c t = \<lfloor>z\<rfloor>" and dz: "\<bar>z - X\<bar> \<le> e"
    unfolding e_def X_def by blast
  define F where "F = (100 * c) div t"
  have t: "0 < t" using assms by simp
  have lo_n: "F * t \<le> 100 * c" by (simp add: F_def)
  have hi_n: "100 * c + 1 \<le> (F + 1) * t"
  proof -
    have "100 * c = F * t + (100 * c) mod t" by (simp add: F_def)
    moreover have "(100 * c) mod t < t" using t by simp
    ultimately show ?thesis by simp
  qed
  have lo: "real F \<le> X"
  proof -
    have "real (F * t) \<le> real (100 * c)" using lo_n by (rule of_nat_mono)
    then show ?thesis using t by (simp add: X_def field_simps)
  qed
  have hi: "X + 1 / real t \<le> real F + 1"
  proof -
    have "real (100 * c + 1) \<le> real ((F + 1) * t)" using hi_n by (rule of_nat_mono)
    then show ?thesis using t by (simp add: X_def field_simps)
  qed
  have "real t < 2 ^ 44"
  proof -
    have "real t < real (2 ^ 44)" using assms(3) by (rule of_nat_less_iff[THEN iffD2])
    then show ?thesis by simp
  qed
  then have "1 / 2 ^ 44 < 1 / real t" using t by (simp add: field_simps)
  moreover have "e < 1 / 2 ^ 44" by (simp add: e_def)
  ultimately have small: "e < 1 / real t" by linarith
  have e1: "e < 1" by (simp add: e_def)
  have upper: "z < real F + 1" using dz hi small by linarith
  have lower: "real F - 1 \<le> z" using dz lo e1 by linarith
  have "z < of_int (int F + 1)" using upper by simp
  then have "\<lfloor>z\<rfloor> < int F + 1" by (simp only: floor_less_iff)
  moreover have "of_int (int F - 1) \<le> z" using lower by simp
  then have "int F - 1 \<le> \<lfloor>z\<rfloor>" by (simp only: le_floor_iff)
  ultimately show ?thesis by (simp add: pz F_def)
qed

lemma bitlen_eval:
  "bitlen 29 = 5" "bitlen 100 = 7" "bitlen 1044835113549955000 = 60"
  "bitlen 36028797018963968 = 56"
  by (simp_all add: bitlen.simps)

lemma progress_29_of_100: "progress_percent 29 100 = 28"
proof -
  have a: "round_double 29 100 = (10448351135499550, 36028797018963968)"
    by (simp add: round_double_def bitlen_eval Let_def)
  have b: "round_double 1044835113549955000 36028797018963968 =
             (16325548649218046, 562949953421312)"
    by (simp add: round_double_def bitlen_eval Let_def)
  show ?thesis
    by (simp add: progress_percent_def a b)
qed

text \<open>
  Claim C8 says that for every progress event \<open>(current, total)\<close> with
  \<open>1 \<le> current \<le> total\<close> the displayed percentage is \<open>floor (100 * current / total)\<close>
  in exact integer arithmetic. The slot does not achieve this: for line 29 of 100 the
  quotient rounds to a double just below \<open>0.29\<close>, its product with 100 to the double
  just below \<open>29\<close>, and the slot displays 28, while \<open>floor (100 * 29 / 100) = 29\<close>.
\<close>

theorem progress_29_of_100_displays_28:
  "(1::nat) \<le> 29 \<and> (29::nat) \<le> 100
   \<and> gcode_progress (on_gcode_progress 29 100 connected_ui) = 28
   \<and> int ((100 * 29) div 100) = 29"
  by (simp add: on_gcode_progress_def progress_29_of_100)

text \<open>
  How far the display can be off: for every progress event \<open>(current, total)\<close> with
  \<open>1 \<le> current \<le> total\<close> and \<open>total < 2^44\<close>, the percentage that the slot computes in
  double precision and displays is \<open>floor (100 * current / total)\<close> or one less.
\<close>

theorem progress_near_floor:
  assumes "1 \<le> current" and "current \<le> total_count" and "total_count < 2 ^ 44"
  shows "gcode_progress (on_gcode_progress current total_count u) = progress_percent current total_count
       \<and> int ((100 * current) div total_count) - 1 \<le> progress_percent current total_count
       \<and> progress_percent current total_count \<le> int ((100 * current) div total_count)"
  using progress_percent_bounds[OF assms] assms(1,2)
  by (simp add: on_gcode_progress_def)

theorem progress_near_floor_witness:
  "(1::nat) \<le> 29 \<and> (29::nat) \<le> 100 \<and> (100::nat) < 2 ^ 44
   \<and> gcode_progress (on_gcode_progress 29 100 connected_ui) = progress_percent 29 100
   \<and> int ((100 * 29) div 100) - 1 \<le> progress_percent 29 100
   \<and> progress_percent 29 100 \<le> int ((100 * 29) div 100)"
proof -
  have h: "(1::nat) \<le> 29" "(29::nat) \<le> 100" "(100::nat) < 2 ^ 44" by simp_all
  from progress_near_floor[OF h, of connected_ui] h show ?thesis by blast
qed


end
